theory Spec2Isabelle
  imports Complex_Main "HOL-Library.AList"
begin

section \<open>Link graph (internal/pagerank/types.go)\<close>

text \<open>
  The Go struct \<^verbatim>\<open>Graph\<close>: a map from URL to dense index, the inverse table, the two
  adjacency lists and the out-degree count. Indices and degrees are Go \<^verbatim>\<open>int\<close>s that
  only ever hold lengths and positions, so they are modelled as \<open>nat\<close>.
\<close>

record Graph =
  Pages :: "string \<rightharpoonup> nat"
  Indices :: "string list"
  OutLinks :: "nat list list"
  InLinks :: "nat list list"
  OutDegree :: "nat list"

definition NewGraph :: Graph where
  "NewGraph = \<lparr>Pages = Map.empty, Indices = [], OutLinks = [], InLinks = [], OutDegree = []\<rparr>"

definition Size :: "Graph \<Rightarrow> nat" where
  "Size g = length (Indices g)"

text \<open>
  A slice read \<^verbatim>\<open>xs[i]\<close> panics in Go when \<open>i\<close> is out of range. Every function that
  indexes a slice returns an \<open>option\<close>, and \<open>None\<close> is that run-time panic.
\<close>

definition index_at :: "'a list \<Rightarrow> nat \<Rightarrow> 'a option" where
  "index_at xs i = (if i < length xs then Some (xs ! i) else None)"

text \<open>\<^verbatim>\<open>AddPage\<close> returns the index and the (possibly extended) graph.\<close>

definition AddPage :: "string \<Rightarrow> Graph \<Rightarrow> nat \<times> Graph" where
  "AddPage url g =
     (case Pages g url of
        Some idx \<Rightarrow> (idx, g)
      | None \<Rightarrow>
          (let idx = length (Indices g)
           in (idx, g\<lparr>Pages := (Pages g)(url \<mapsto> idx),
                       Indices := Indices g @ [url],
                       OutLinks := OutLinks g @ [[]],
                       InLinks := InLinks g @ [[]],
                       OutDegree := OutDegree g @ [0]\<rparr>)))"

text \<open>
  \<^verbatim>\<open>AddLink\<close>: both pages are added first; the scan of \<^verbatim>\<open>g.OutLinks[fromIdx]\<close> for an
  existing entry returns early (with the pages kept); otherwise the three slices are
  updated in the order of the source.
\<close>

definition AddLink :: "string \<Rightarrow> string \<Rightarrow> Graph \<Rightarrow> Graph option" where
  "AddLink from to g =
     (let (fromIdx, g1) = AddPage from g;
          (toIdx, g2) = AddPage to g1
      in case index_at (OutLinks g2) fromIdx of
           None \<Rightarrow> None
         | Some outs \<Rightarrow>
             if toIdx \<in> set outs then Some g2
             else (case index_at (InLinks g2) toIdx of
                     None \<Rightarrow> None
                   | Some ins \<Rightarrow>
                       (case index_at (OutDegree g2) fromIdx of
                          None \<Rightarrow> None
                        | Some deg \<Rightarrow>
                            Some (g2\<lparr>OutLinks := (OutLinks g2)[fromIdx := outs @ [toIdx]],
                                      InLinks := (InLinks g2)[toIdx := ins @ [fromIdx]],
                                      OutDegree := (OutDegree g2)[fromIdx := deg + 1]\<rparr>))))"

text \<open>A sequence of calls of the two mutators, run from left to right.\<close>

datatype call = CallAddPage string | CallAddLink string string

fun apply_call :: "call \<Rightarrow> Graph \<Rightarrow> Graph option" where
  "apply_call (CallAddPage url) g = Some (snd (AddPage url g))"
| "apply_call (CallAddLink from to) g = AddLink from to g"

fun run_calls :: "call list \<Rightarrow> Graph \<Rightarrow> Graph option" where
  "run_calls [] g = Some g"
| "run_calls (c # cs) g =
     (case apply_call c g of None \<Rightarrow> None | Some g' \<Rightarrow> run_calls cs g')"

text \<open>
  The invariant of the data model: the URL/index tables are inverse to each other, all
  per-node slices have one entry per node, adjacency entries are node indices, no
  adjacency list repeats an entry, an edge is in the out-list of its source exactly when
  it is in the in-list of its target, and the out-degree is the length of the out-list.
\<close>

definition graph_inv :: "Graph \<Rightarrow> bool" where
  "graph_inv g \<longleftrightarrow>
     length (OutLinks g) = Size g \<and>
     length (InLinks g) = Size g \<and>
     length (OutDegree g) = Size g \<and>
     (\<forall>u i. Pages g u = Some i \<longrightarrow> i < Size g \<and> Indices g ! i = u) \<and>
     (\<forall>i < Size g. Pages g (Indices g ! i) = Some i) \<and>
     (\<forall>i < Size g. distinct (OutLinks g ! i) \<and> (\<forall>j \<in> set (OutLinks g ! i). j < Size g)) \<and>
     (\<forall>i < Size g. distinct (InLinks g ! i) \<and> (\<forall>j \<in> set (InLinks g ! i). j < Size g)) \<and>
     (\<forall>i < Size g. \<forall>j < Size g. j \<in> set (OutLinks g ! i) \<longleftrightarrow> i \<in> set (InLinks g ! j)) \<and>
     (\<forall>i < Size g. OutDegree g ! i = length (OutLinks g ! i))"

text \<open>The two record updates of the mutators, named for the proofs.\<close>

definition add_node :: "string \<Rightarrow> Graph \<Rightarrow> Graph" where
  "add_node url g = g\<lparr>Pages := (Pages g)(url \<mapsto> length (Indices g)),
                        Indices := Indices g @ [url],
                        OutLinks := OutLinks g @ [[]],
                        InLinks := InLinks g @ [[]],
                        OutDegree := OutDegree g @ [0]\<rparr>"

definition add_edge :: "nat \<Rightarrow> nat \<Rightarrow> Graph \<Rightarrow> Graph" where
  "add_edge fi ti g = g\<lparr>OutLinks := (OutLinks g)[fi := OutLinks g ! fi @ [ti]],
                          InLinks := (InLinks g)[ti := InLinks g ! ti @ [fi]],
                          OutDegree := (OutDegree g)[fi := OutDegree g ! fi + 1]\<rparr>"



text \<open>The graph of the pages \<^verbatim>\<open>/a\<close>, \<^verbatim>\<open>/b\<close>, \<^verbatim>\<open>/c\<close> with the links a\<rightarrow>b, a\<rightarrow>c, b\<rightarrow>c.\<close>

definition demo_graph :: Graph where
  "demo_graph = \<lparr>Pages = [''/a'' \<mapsto> 0, ''/b'' \<mapsto> 1, ''/c'' \<mapsto> 2],
                  Indices = [''/a'', ''/b'', ''/c''],
                  OutLinks = [[1, 2], [2], []],
                  InLinks = [[], [0], [0, 1]],
                  OutDegree = [2, 1, 0]\<rparr>"


section \<open>PageRank (internal/pagerank/algorithm.go)\<close>

text \<open>
  \<^verbatim>\<open>float64\<close> is modelled by \<open>real\<close>: the arithmetic below is the exact arithmetic
  of the formulas in the source, without rounding.
\<close>

record ComputeConfig =
  DampingFactor :: real
  MaxIterations :: int
  Tolerance :: real

definition DefaultComputeConfig :: ComputeConfig where
  "DefaultComputeConfig = \<lparr>DampingFactor = 85 / 100, MaxIterations = 100, Tolerance = 1 / 1000000\<rparr>"

text \<open>A \<^verbatim>\<open>for\<close> loop over a range whose body may panic: the first panic ends the run.\<close>

fun for_each :: "'a list \<Rightarrow> ('a \<Rightarrow> 's \<Rightarrow> 's option) \<Rightarrow> 's \<Rightarrow> 's option" where
  "for_each [] body s = Some s"
| "for_each (x # xs) body s =
     (case body x s of None \<Rightarrow> None | Some s' \<Rightarrow> for_each xs body s')"

text \<open>Lines 52-57: the rank held by the nodes without outgoing links.\<close>

definition danglingSum :: "Graph \<Rightarrow> nat \<Rightarrow> real list \<Rightarrow> real option" where
  "danglingSum g n scores =
     for_each [0..<n]
       (\<lambda>i acc. case index_at (OutDegree g) i of
                   None \<Rightarrow> None
                 | Some deg \<Rightarrow>
                     if deg = 0
                     then (case index_at scores i of None \<Rightarrow> None | Some s \<Rightarrow> Some (acc + s))
                     else Some acc)
       0"

text \<open>Lines 66-70: the contributions of the incoming links of one node.\<close>

definition addInLinks :: "Graph \<Rightarrow> real \<Rightarrow> real list \<Rightarrow> nat list \<Rightarrow> real \<Rightarrow> real option" where
  "addInLinks g d scores inl start =
     for_each inl
       (\<lambda>j acc. case index_at (OutDegree g) j of
                   None \<Rightarrow> None
                 | Some deg \<Rightarrow>
                     if deg > 0
                     then (case index_at scores j of
                             None \<Rightarrow> None
                           | Some s \<Rightarrow> Some (acc + d * s / real deg))
                     else Some acc)
       start"

text \<open>Lines 61-71: the new score of every node, written into the second buffer.\<close>

definition calcNewScores ::
  "Graph \<Rightarrow> real \<Rightarrow> nat \<Rightarrow> real \<Rightarrow> real \<Rightarrow> real list \<Rightarrow> real list \<Rightarrow> real list option" where
  "calcNewScores g d n teleport danglingContribution scores newScores =
     for_each [0..<n]
       (\<lambda>i ns. case index_at (InLinks g) i of
                  None \<Rightarrow> None
                | Some inl \<Rightarrow>
                    (case addInLinks g d scores inl (teleport + danglingContribution) of
                       None \<Rightarrow> None
                     | Some v \<Rightarrow> if i < length ns then Some (ns[i := v]) else None))
       newScores"

text \<open>Lines 74-77: the L1 distance of the two buffers.\<close>

definition l1_diff :: "nat \<Rightarrow> real list \<Rightarrow> real list \<Rightarrow> real option" where
  "l1_diff n newScores scores =
     for_each [0..<n]
       (\<lambda>i acc. case (index_at newScores i, index_at scores i) of
                   (Some a, Some b) \<Rightarrow> Some (acc + \<bar>a - b\<bar>)
                 | _ \<Rightarrow> None)
       0"

text \<open>
  One pass of the loop body up to the swap: the result is the pair of buffers after the
  swap (the new scores first, the old scores as the next spare buffer) and the
  distance.
\<close>

definition iteration ::
  "Graph \<Rightarrow> real \<Rightarrow> nat \<Rightarrow> real \<Rightarrow> real list \<Rightarrow> real list \<Rightarrow> (real list \<times> real list \<times> real) option" where
  "iteration g d n teleport scores newScores =
     (case danglingSum g n scores of
        None \<Rightarrow> None
      | Some ds \<Rightarrow>
          (let danglingContribution = d * ds / real n
           in case calcNewScores g d n teleport danglingContribution scores newScores of
                None \<Rightarrow> None
              | Some ns \<Rightarrow>
                  (case l1_diff n ns scores of
                     None \<Rightarrow> None
                   | Some diff \<Rightarrow> Some (ns, scores, diff))))"

text \<open>
  The loop \<^verbatim>\<open>for iter := 0; iter < config.MaxIterations; iter++\<close>. The arguments
  \<open>iterations\<close> and the two buffers are the variables that live across passes; the result
  is what \<^verbatim>\<open>Compute\<close> returns.
\<close>

function iterate ::
  "Graph \<Rightarrow> ComputeConfig \<Rightarrow> nat \<Rightarrow> real \<Rightarrow> int \<Rightarrow> int \<Rightarrow> real list \<Rightarrow> real list
     \<Rightarrow> (real list \<times> int \<times> bool) option" where
  "iterate g config n teleport iter iterations scores newScores =
     (if iter < MaxIterations config
      then (case iteration g (DampingFactor config) n teleport scores newScores of
              None \<Rightarrow> None
            | Some (scores', newScores', diff) \<Rightarrow>
                if diff < Tolerance config then Some (scores', iter + 1, True)
                else iterate g config n teleport (iter + 1) (iter + 1) scores' newScores')
      else Some (scores, iterations, False))"
  by pat_completeness auto
termination
  by (relation "measure (\<lambda>(g, config, n, teleport, iter, iterations, scores, newScores).
                           nat (MaxIterations config - iter))") auto

definition Compute :: "Graph \<Rightarrow> ComputeConfig \<Rightarrow> (real list \<times> int \<times> bool) option" where
  "Compute g config =
     (let n = Size g
      in if n = 0 then Some ([], 0, True)
         else
           (let d = DampingFactor config;
                scores = replicate n (1 / real n);
                teleport = (1 - d) / real n;
                newScores = replicate n 0
            in iterate g config n teleport 0 0 scores newScores))"

text \<open>
  The closed forms of the three loops on a well-formed graph, used to state and prove the
  properties of one pass.
\<close>

definition dangling_total :: "Graph \<Rightarrow> nat \<Rightarrow> real list \<Rightarrow> real" where
  "dangling_total g n scores = (\<Sum>i\<leftarrow>[0..<n]. if OutDegree g ! i = 0 then scores ! i else 0)"

definition link_share :: "Graph \<Rightarrow> real \<Rightarrow> real list \<Rightarrow> nat \<Rightarrow> real" where
  "link_share g d scores j =
     (if OutDegree g ! j > 0 then d * (scores ! j) / real (OutDegree g ! j) else 0)"

definition next_score :: "Graph \<Rightarrow> real \<Rightarrow> nat \<Rightarrow> real list \<Rightarrow> nat \<Rightarrow> real" where
  "next_score g d n scores i =
     (1 - d) / real n + d * dangling_total g n scores / real n
       + (\<Sum>j\<leftarrow>InLinks g ! i. link_share g d scores j)"

section \<open>Strings and URLs\<close>

text \<open>
  Go strings are byte sequences; \<open>string\<close> is a list of bytes too. The functions of the
  Go package \<^verbatim>\<open>strings\<close> that the code calls, on bytes; \<^verbatim>\<open>TrimSpace\<close> and \<^verbatim>\<open>ToLower\<close>
  are modelled on ASCII (the Go functions also know the Unicode white space and letters
  beyond ASCII).
\<close>

definition HasPrefix :: "string \<Rightarrow> string \<Rightarrow> bool" where
  "HasPrefix s prefix = (take (length prefix) s = prefix)"

definition HasSuffix :: "string \<Rightarrow> string \<Rightarrow> bool" where
  "HasSuffix s suffix =
     (length suffix \<le> length s \<and> drop (length s - length suffix) s = suffix)"

definition TrimSuffix :: "string \<Rightarrow> string \<Rightarrow> string" where
  "TrimSuffix s suffix = (if HasSuffix s suffix then take (length s - length suffix) s else s)"

definition is_space :: "char \<Rightarrow> bool" where
  "is_space c \<longleftrightarrow> c \<in> set [CHR '' '', CHR 0x09, CHR 0x0A, CHR 0x0B, CHR 0x0C, CHR 0x0D]"

definition TrimSpace :: "string \<Rightarrow> string" where
  "TrimSpace s = rev (dropWhile is_space (rev (dropWhile is_space s)))"

definition lower_char :: "char \<Rightarrow> char" where
  "lower_char c =
     (case map_of (zip ''ABCDEFGHIJKLMNOPQRSTUVWXYZ'' ''abcdefghijklmnopqrstuvwxyz'') c of
        Some l \<Rightarrow> l
      | None \<Rightarrow> c)"

definition ToLower :: "string \<Rightarrow> string" where
  "ToLower s = map lower_char s"

text \<open>
  \<^verbatim>\<open>strings.SplitN(line, ":", 2)\<close>: one part when the line has no colon, otherwise the
  text before the first colon and the text after it.
\<close>

definition SplitN_colon_2 :: "string \<Rightarrow> string list" where
  "SplitN_colon_2 line =
     (if CHR '':'' \<in> set line
      then [takeWhile (\<lambda>c. c \<noteq> CHR '':'') line, tl (dropWhile (\<lambda>c. c \<noteq> CHR '':'') line)]
      else [line])"

text \<open>
  The fields of \<^verbatim>\<open>net/url.URL\<close> that the code reads. \<^verbatim>\<open>url.Parse\<close> belongs to the Go
  standard library, not to this repository: every function that calls it takes it as the
  parameter \<open>parse\<close>, with \<open>None\<close> for a parse error.
\<close>

record URL =
  Scheme :: string
  Host :: string
  Path :: string

type_synonym url_parser = "string \<Rightarrow> URL option"

text \<open>
  A stand-in for \<^verbatim>\<open>url.Parse\<close>, used only to instantiate \<open>parse\<close> at concrete inputs. It
  agrees with \<^verbatim>\<open>url.Parse\<close> on the lower-case inputs of the forms
  \<^verbatim>\<open>scheme://host\<close>, \<^verbatim>\<open>scheme://host/path\<close> and \<^verbatim>\<open>scheme://host/path?query\<close> over letters,
  digits, dots and slashes, and on a string that starts with a colon (an error, the scheme
  is missing).
\<close>

definition simple_parse :: url_parser where
  "simple_parse s =
     (let scheme = takeWhile (\<lambda>c. c \<noteq> CHR '':'') s;
          rest = dropWhile (\<lambda>c. c \<noteq> CHR '':'') s
      in if scheme = [] then None
         else if take 3 rest = ''://''
         then (let hp = drop 3 rest;
                   h = takeWhile (\<lambda>c. c \<noteq> CHR ''/'' \<and> c \<noteq> CHR ''?'') hp;
                   p = takeWhile (\<lambda>c. c \<noteq> CHR ''?'')
                         (dropWhile (\<lambda>c. c \<noteq> CHR ''/'' \<and> c \<noteq> CHR ''?'') hp)
               in Some \<lparr>Scheme = scheme, Host = h, Path = p\<rparr>)
         else None)"

section \<open>robots.txt checker (internal/indexer/robots.go)\<close>

type_synonym error = string

record disallowRule =
  path :: string

record RobotsChecker =
  rules :: "disallowRule list"
  loaded :: bool
  loadError :: "error option"

definition NewRobotsChecker :: RobotsChecker where
  "NewRobotsChecker = \<lparr>rules = [], loaded = False, loadError = None\<rparr>"

text \<open>
  What the network gives to \<^verbatim>\<open>Load\<close>: either \<^verbatim>\<open>client.Get\<close> fails, or there is a
  response with a status code, the lines that \<^verbatim>\<open>scanner.Scan\<close> delivers, and the value
  of \<^verbatim>\<open>scanner.Err()\<close> after the last delivered line (a read error or a line that is
  too long ends the scan early).
\<close>

datatype http_get = GetFailed error | GetResponse int "string list" "error option"

text \<open>The body of the scan loop on one line; the state is \<^verbatim>\<open>inUserAgentAll\<close> and the rules.\<close>

definition scan_line :: "string \<Rightarrow> bool \<times> disallowRule list \<Rightarrow> bool \<times> disallowRule list" where
  "scan_line text st =
     (let line = TrimSpace text
      in if line = [] \<or> HasPrefix line ''#'' then st
         else (let parts = SplitN_colon_2 line
               in if length parts \<noteq> 2 then st
                  else (let directive = ToLower (TrimSpace (parts ! 0));
                            v = TrimSpace (parts ! 1)
                        in if directive = ''user-agent'' then (v = ''*'', snd st)
                           else if directive = ''disallow''
                           then (if fst st \<and> v \<noteq> []
                                 then (fst st, snd st @ [\<lparr>path = v\<rparr>])
                                 else st)
                           else st)))"

text \<open>\<^verbatim>\<open>Load\<close> returns the updated checker and the error value (\<open>None\<close> for \<^verbatim>\<open>nil\<close>).\<close>

definition Load :: "http_get \<Rightarrow> RobotsChecker \<Rightarrow> RobotsChecker \<times> error option" where
  "Load resp r =
     (case resp of
        GetFailed err \<Rightarrow> (r\<lparr>loadError := Some err\<rparr>, Some err)
      | GetResponse status lines scanErr \<Rightarrow>
          if status \<noteq> 200 then (r\<lparr>loaded := True\<rparr>, None)
          else (let st = fold scan_line lines (False, rules r)
                in (r\<lparr>rules := snd st, loaded := True\<rparr>, scanErr)))"

definition matchesRule :: "string \<Rightarrow> string \<Rightarrow> bool" where
  "matchesRule p rule =
     (if HasSuffix rule ''*'' then HasPrefix p (TrimSuffix rule ''*'')
      else if HasSuffix rule ''$'' then p = TrimSuffix rule ''$''
      else HasPrefix p rule)"

definition IsBlocked :: "url_parser \<Rightarrow> RobotsChecker \<Rightarrow> string \<Rightarrow> bool" where
  "IsBlocked parse r targetURL =
     (if \<not> loaded r \<or> length (rules r) = 0 then False
      else (case parse targetURL of
              None \<Rightarrow> False
            | Some parsed \<Rightarrow>
                (let p = (if Path parsed = [] then ''/'' else Path parsed)
                 in list_ex (\<lambda>rule. matchesRule p (path rule)) (rules r))))"

section \<open>Crawler (internal/crawler/crawler.go)\<close>

record Config =
  Concurrency :: int
  Timeout :: int
  MaxDepth :: int
  Verbose :: bool

definition DefaultConfig :: Config where
  "DefaultConfig = \<lparr>Concurrency = 10, Timeout = 10000000000, MaxDepth = 0, Verbose = False\<rparr>"

record urlTask =
  url :: string
  sourceURL :: string
  depth :: int

record BrokenLink =
  SourceURL :: string
  BrokenURL :: string
  StatusCode :: int
  Error :: string

record CrawlResult =
  StartURL :: string
  TotalVisited :: nat
  BrokenLinks :: "BrokenLink list"

text \<open>
  The state that the goroutines of one crawl share: the map \<^verbatim>\<open>c.visited\<close> (an association
  list with one entry per key, so that \<^verbatim>\<open>len(c.visited)\<close> is its length), the slice
  \<^verbatim>\<open>c.broken\<close>, and the buffered channel \<^verbatim>\<open>tasks\<close> (its pending elements, oldest first).
  \<open>fetched\<close> is not in the source: it records the tasks for which \<^verbatim>\<open>c.client.Do\<close> was
  called, in the order of the calls.
\<close>

record crawl_state =
  visited :: "(string \<times> bool) list"
  broken :: "BrokenLink list"
  tasks :: "urlTask list"
  fetched :: "urlTask list"

text \<open>
  What the network answers to a request: an error of \<^verbatim>\<open>c.client.Do\<close> (a failed
  connection, a timeout, too many redirects), or a response with its status code, its
  \<^verbatim>\<open>Content-Type\<close> and the links that \<^verbatim>\<open>ExtractLinks\<close> finds in its body (the HTML
  tokenizer is a library; a malformed body only changes this list). The answer may depend
  on the URL and on all the requests made before.
\<close>

datatype response = NetError error | Response int string "string list"

type_synonym web = "urlTask list \<Rightarrow> string \<Rightarrow> response"

definition tasks_capacity :: nat where
  "tasks_capacity = 1000"

definition isHTML :: "string \<Rightarrow> bool" where
  "isHTML contentType \<longleftrightarrow>
     length contentType \<ge> 9 \<and> take 9 contentType = ''text/html'' \<or>
     length contentType \<ge> 21 \<and> take 21 contentType = ''application/xhtml+xml''"

definition IsSameDomain :: "url_parser \<Rightarrow> string \<Rightarrow> URL \<Rightarrow> bool" where
  "IsSameDomain parse targetURL baseURL =
     (case parse targetURL of None \<Rightarrow> False | Some parsed \<Rightarrow> Host parsed = Host baseURL)"

definition markVisited :: "string \<Rightarrow> crawl_state \<Rightarrow> crawl_state" where
  "markVisited u st = st\<lparr>visited := AList.update u True (visited st)\<rparr>"

definition shouldVisit :: "url_parser \<Rightarrow> URL \<Rightarrow> crawl_state \<Rightarrow> string \<Rightarrow> bool" where
  "shouldVisit parse baseURL st targetURL =
     (if \<not> IsSameDomain parse targetURL baseURL then False
      else \<not> (case map_of (visited st) targetURL of Some b \<Rightarrow> b | None \<Rightarrow> False))"

definition addBrokenLink :: "string \<Rightarrow> string \<Rightarrow> int \<Rightarrow> string \<Rightarrow> crawl_state \<Rightarrow> crawl_state" where
  "addBrokenLink src brokenURL statusCode errMsg st =
     st\<lparr>broken := broken st @
           [\<lparr>SourceURL = src, BrokenURL = brokenURL, StatusCode = statusCode, Error = errMsg\<rparr>]\<rparr>"

text \<open>
  Lines 236-240, \<^verbatim>\<open>select { case tasks <- t: default: }\<close>: the send succeeds when the
  buffer has room, and otherwise the \<^verbatim>\<open>default\<close> branch drops the task.
\<close>

definition try_send :: "urlTask \<Rightarrow> crawl_state \<Rightarrow> crawl_state" where
  "try_send t st = (if length (tasks st) < tasks_capacity then st\<lparr>tasks := tasks st @ [t]\<rparr> else st)"

text \<open>Lines 232-241: the body of the loop over the links of one page, run without interruption.\<close>

definition queue_link :: "url_parser \<Rightarrow> URL \<Rightarrow> urlTask \<Rightarrow> string \<Rightarrow> crawl_state \<Rightarrow> crawl_state" where
  "queue_link parse baseURL task link st =
     (if shouldVisit parse baseURL st link
      then try_send \<lparr>url = link, sourceURL = url task, depth = depth task + 1\<rparr> (markVisited link st)
      else st)"

definition queue_links ::
  "url_parser \<Rightarrow> URL \<Rightarrow> urlTask \<Rightarrow> string list \<Rightarrow> crawl_state \<Rightarrow> crawl_state" where
  "queue_links parse baseURL task links st = fold (queue_link parse baseURL task) links st"

text \<open>
  Lines 177-228 of \<^verbatim>\<open>processURL\<close>, for a context that is not cancelled and after the
  semaphore slot was taken: which \<^verbatim>\<open>return\<close> is reached, the state after it, and (when
  the page is to be scanned) the extracted links. \<^verbatim>\<open>http.NewRequestWithContext\<close> fails
  exactly when the URL does not parse; the text of its error is not modelled.
\<close>

datatype outcome = DepthExceeded | RequestFailed | FetchFailed | HTTPError | NotHTML | Crawled

definition fetch_stage ::
  "url_parser \<Rightarrow> Config \<Rightarrow> web \<Rightarrow> urlTask \<Rightarrow> crawl_state \<Rightarrow> outcome \<times> crawl_state \<times> string list" where
  "fetch_stage parse cfg w task st =
     (if MaxDepth cfg > 0 \<and> depth task > MaxDepth cfg then (DepthExceeded, st, [])
      else (case parse (url task) of
              None \<Rightarrow>
                (RequestFailed, addBrokenLink (sourceURL task) (url task) 0 ''invalid URL'' st, [])
            | Some req \<Rightarrow>
                (let st1 = st\<lparr>fetched := fetched st @ [task]\<rparr>
                 in case w (fetched st) (url task) of
                      NetError err \<Rightarrow>
                        (FetchFailed,
                         if sourceURL task \<noteq> [] then addBrokenLink (sourceURL task) (url task) 0 err st1
                         else st1,
                         [])
                    | Response statusCode contentType links \<Rightarrow>
                        if statusCode \<ge> 400
                        then (HTTPError,
                              if sourceURL task \<noteq> []
                              then addBrokenLink (sourceURL task) (url task) statusCode [] st1
                              else addBrokenLink (url task) (url task) statusCode
                                     ''start URL returned error'' st1,
                              [])
                        else if \<not> isHTML contentType then (NotHTML, st1, [])
                        else (Crawled, st1, links))))"

text \<open>\<^verbatim>\<open>processURL\<close> run by one goroutine with no other goroutine in between.\<close>

definition processURL ::
  "url_parser \<Rightarrow> Config \<Rightarrow> URL \<Rightarrow> web \<Rightarrow> urlTask \<Rightarrow> crawl_state \<Rightarrow> outcome \<times> crawl_state" where
  "processURL parse cfg baseURL w task st =
     (case fetch_stage parse cfg w task st of
        (out, st1, links) \<Rightarrow>
          (out, if out = Crawled then queue_links parse baseURL task links st1 else st1))"

subsection \<open>Goroutines\<close>

text \<open>
  The workers and the monitor of \<^verbatim>\<open>Crawl\<close> as a transition system. A worker is idle
  (waiting on the channel) or inside the loop over the links of its page, in front of
  one of the three operations on the current link: the read of \<^verbatim>\<open>c.visited\<close> in
  \<^verbatim>\<open>shouldVisit\<close>, the write in \<^verbatim>\<open>markVisited\<close>, the send on \<^verbatim>\<open>tasks\<close>. Each of them is
  one step, and steps of different goroutines interleave in any order. Receiving a task
  and running lines 170-228 on it is one step (it touches no variable that the other
  steps read, apart from the channel).
\<close>

datatype pc = AtCheck | AtMark | AtSend

datatype worker = Idle | Queueing urlTask "string list" pc

text \<open>
  The monitor goroutine (lines 112-135): asleep, then with the visited count read at its
  first test of the channel and the semaphore, at its second test half a second later,
  and at the test of the safety threshold.
\<close>

datatype reason = Quiescent | SafetyCap

datatype monitor = Sleeping | FirstCheck nat | SecondCheck nat | SafetyCheck nat | Done reason

record sys =
  shared :: crawl_state
  workers :: "worker list"
  mon :: monitor

datatype event = WorkerStep nat | MonitorStep

definition safety_cap :: nat where
  "safety_cap = 10000"

text \<open>\<^verbatim>\<open>len(c.semaphore)\<close>: the workers that hold a slot, which are those that are not idle.\<close>

definition semaphore_len :: "sys \<Rightarrow> nat" where
  "semaphore_len s = length (filter (\<lambda>wk. wk \<noteq> Idle) (workers s))"

definition worker_step :: "url_parser \<Rightarrow> Config \<Rightarrow> URL \<Rightarrow> web \<Rightarrow> nat \<Rightarrow> sys \<Rightarrow> sys" where
  "worker_step parse cfg baseURL w i s =
     (if i \<ge> length (workers s) then s
      else (case workers s ! i of
              Idle \<Rightarrow>
                (case tasks (shared s) of
                   [] \<Rightarrow> s
                 | task # rest \<Rightarrow>
                     (case fetch_stage parse cfg w task ((shared s)\<lparr>tasks := rest\<rparr>) of
                        (out, st1, links) \<Rightarrow>
                          s\<lparr>shared := st1,
                            workers := (workers s)
                              [i := if out = Crawled then Queueing task links AtCheck else Idle]\<rparr>))
            | Queueing task [] c \<Rightarrow> s\<lparr>workers := (workers s)[i := Idle]\<rparr>
            | Queueing task (link # links) AtCheck \<Rightarrow>
                if shouldVisit parse baseURL (shared s) link
                then s\<lparr>workers := (workers s)[i := Queueing task (link # links) AtMark]\<rparr>
                else s\<lparr>workers := (workers s)[i := Queueing task links AtCheck]\<rparr>
            | Queueing task (link # links) AtMark \<Rightarrow>
                s\<lparr>shared := markVisited link (shared s),
                  workers := (workers s)[i := Queueing task (link # links) AtSend]\<rparr>
            | Queueing task (link # links) AtSend \<Rightarrow>
                s\<lparr>shared := try_send \<lparr>url = link, sourceURL = url task, depth = depth task + 1\<rparr>
                              (shared s),
                  workers := (workers s)[i := Queueing task links AtCheck]\<rparr>))"

definition monitor_step :: "sys \<Rightarrow> sys" where
  "monitor_step s =
     (let quiet = (length (tasks (shared s)) = 0 \<and> semaphore_len s = 0)
      in case mon s of
           Sleeping \<Rightarrow> s\<lparr>mon := FirstCheck (length (visited (shared s)))\<rparr>
         | FirstCheck visitedCount \<Rightarrow>
             s\<lparr>mon := if quiet then SecondCheck visitedCount else SafetyCheck visitedCount\<rparr>
         | SecondCheck visitedCount \<Rightarrow>
             s\<lparr>mon := if quiet then Done Quiescent else SafetyCheck visitedCount\<rparr>
         | SafetyCheck visitedCount \<Rightarrow>
             s\<lparr>mon := if visitedCount > safety_cap then Done SafetyCap else Sleeping\<rparr>
         | Done r \<Rightarrow> s)"

text \<open>
  One event of a schedule. Once the monitor has closed \<^verbatim>\<open>done\<close>, \<^verbatim>\<open>Crawl\<close> cancels the
  context and reads its result: later events are not part of the crawl.
\<close>

definition sys_step :: "url_parser \<Rightarrow> Config \<Rightarrow> URL \<Rightarrow> web \<Rightarrow> event \<Rightarrow> sys \<Rightarrow> sys" where
  "sys_step parse cfg baseURL w e s =
     (case mon s of
        Done r \<Rightarrow> s
      | _ \<Rightarrow> (case e of
                WorkerStep i \<Rightarrow> worker_step parse cfg baseURL w i s
              | MonitorStep \<Rightarrow> monitor_step s))"

definition run_events :: "url_parser \<Rightarrow> Config \<Rightarrow> URL \<Rightarrow> web \<Rightarrow> event list \<Rightarrow> sys \<Rightarrow> sys" where
  "run_events parse cfg baseURL w es s = fold (sys_step parse cfg baseURL w) es s"

text \<open>Lines 84-100: the seed is marked and sent, and the workers are started.\<close>

definition init_sys :: "Config \<Rightarrow> string \<Rightarrow> sys" where
  "init_sys cfg startURL =
     \<lparr>shared = (markVisited startURL \<lparr>visited = [], broken = [], tasks = [], fetched = []\<rparr>)
                 \<lparr>tasks := [\<lparr>url = startURL, sourceURL = [], depth = 0\<rparr>]\<rparr>,
      workers = replicate (nat (Concurrency cfg)) Idle,
      mon = Sleeping\<rparr>"

text \<open>
  \<^verbatim>\<open>Crawl\<close>, for a finite schedule of the goroutines. The first component is what
  \<^verbatim>\<open>Crawl\<close> returns: \<open>None\<close> when the monitor has not closed \<^verbatim>\<open>done\<close> within the schedule
  (\<^verbatim>\<open>Crawl\<close> is still waiting), \<open>Inl\<close> for a non-nil error, \<open>Inr\<close> for a result with a nil
  error. The second component is the list of the tasks fetched so far.
\<close>

datatype crawl_error = InvalidURL | NotHTTP

definition Crawl ::
  "url_parser \<Rightarrow> Config \<Rightarrow> web \<Rightarrow> event list \<Rightarrow> string
     \<Rightarrow> (crawl_error + CrawlResult) option \<times> urlTask list" where
  "Crawl parse cfg w es startURL =
     (case parse startURL of
        None \<Rightarrow> (Some (Inl InvalidURL), [])
      | Some parsed \<Rightarrow>
          if Scheme parsed \<noteq> ''http'' \<and> Scheme parsed \<noteq> ''https'' then (Some (Inl NotHTTP), [])
          else (let s = run_events parse cfg parsed w es (init_sys cfg startURL)
                in (case mon s of
                      Done r \<Rightarrow>
                        Some (Inr \<lparr>StartURL = startURL,
                                   TotalVisited = length (visited (shared s)),
                                   BrokenLinks = broken (shared s)\<rparr>)
                    | _ \<Rightarrow> None,
                    fetched (shared s))))"

subsection \<open>Concrete sites\<close>

text \<open>
  A site of four pages: the start page links to \<^verbatim>\<open>/a\<close> and \<^verbatim>\<open>/b\<close>, and both of them link
  to \<^verbatim>\<open>/c\<close>.
\<close>

definition demo_web :: web where
  "demo_web history u =
     (if u = ''https://site.com/''
      then Response 200 ''text/html'' [''https://site.com/a'', ''https://site.com/b'']
      else if u = ''https://site.com/a'' \<or> u = ''https://site.com/b''
      then Response 200 ''text/html'' [''https://site.com/c'']
      else Response 200 ''text/html'' [])"

text \<open>
  The schedule of two workers in which both read \<^verbatim>\<open>c.visited\<close> for \<^verbatim>\<open>/c\<close> before either
  of them marks it: worker 0 handles the start page alone; then worker 0 takes \<^verbatim>\<open>/a\<close> and
  worker 1 takes \<^verbatim>\<open>/b\<close>; both run \<^verbatim>\<open>shouldVisit\<close>, then both mark and send; then the two
  queued tasks are received.
\<close>

definition race_schedule :: "event list" where
  "race_schedule =
     replicate 8 (WorkerStep 0) @
     [WorkerStep 0, WorkerStep 1,
      WorkerStep 0, WorkerStep 1,
      WorkerStep 0, WorkerStep 0, WorkerStep 1, WorkerStep 1,
      WorkerStep 0, WorkerStep 1,
      WorkerStep 0, WorkerStep 1]"




text \<open>A site that answers every request with a network error.\<close>

definition failing_web :: web where
  "failing_web history u = NetError ''dial tcp: connection refused''"








section \<open>Properties of the link graph\<close>

lemma graph_inv_NewGraph: "graph_inv NewGraph"
  by (simp add: graph_inv_def NewGraph_def Size_def)


lemma AddPage_existing: "Pages g u = Some i \<Longrightarrow> AddPage u g = (i, g)"
  by (simp add: AddPage_def)

lemma AddPage_cases:
  "AddPage u g = (case Pages g u of Some i \<Rightarrow> (i, g) | None \<Rightarrow> (Size g, add_node u g))"
  by (cases "Pages g u") (simp_all add: AddPage_def add_node_def Size_def Let_def)

lemma graph_invD:
  assumes "graph_inv g"
  shows "length (OutLinks g) = Size g" and "length (InLinks g) = Size g"
    and "length (OutDegree g) = Size g"
    and "\<forall>u i. Pages g u = Some i \<longrightarrow> i < Size g \<and> Indices g ! i = u"
    and "\<forall>i < Size g. Pages g (Indices g ! i) = Some i"
    and "\<forall>i < Size g. distinct (OutLinks g ! i) \<and> (\<forall>j \<in> set (OutLinks g ! i). j < Size g)"
    and "\<forall>i < Size g. distinct (InLinks g ! i) \<and> (\<forall>j \<in> set (InLinks g ! i). j < Size g)"
    and "\<forall>i < Size g. \<forall>j < Size g. j \<in> set (OutLinks g ! i) \<longleftrightarrow> i \<in> set (InLinks g ! j)"
    and "\<forall>i < Size g. OutDegree g ! i = length (OutLinks g ! i)"
proof -
  have c: "length (OutLinks g) = Size g \<and>
     length (InLinks g) = Size g \<and>
     length (OutDegree g) = Size g \<and>
     (\<forall>u i. Pages g u = Some i \<longrightarrow> i < Size g \<and> Indices g ! i = u) \<and>
     (\<forall>i < Size g. Pages g (Indices g ! i) = Some i) \<and>
     (\<forall>i < Size g. distinct (OutLinks g ! i) \<and> (\<forall>j \<in> set (OutLinks g ! i). j < Size g)) \<and>
     (\<forall>i < Size g. distinct (InLinks g ! i) \<and> (\<forall>j \<in> set (InLinks g ! i). j < Size g)) \<and>
     (\<forall>i < Size g. \<forall>j < Size g. j \<in> set (OutLinks g ! i) \<longleftrightarrow> i \<in> set (InLinks g ! j)) \<and>
     (\<forall>i < Size g. OutDegree g ! i = length (OutLinks g ! i))"
    using assms unfolding graph_inv_def .
  note r = c[THEN conjunct2]
  note r2 = r[THEN conjunct2]
  note r3 = r2[THEN conjunct2]
  note r4 = r3[THEN conjunct2]
  note r5 = r4[THEN conjunct2]
  note r6 = r5[THEN conjunct2]
  note r7 = r6[THEN conjunct2]
  show "length (OutLinks g) = Size g" by (rule c[THEN conjunct1])
  show "length (InLinks g) = Size g" by (rule r[THEN conjunct1])
  show "length (OutDegree g) = Size g" by (rule r2[THEN conjunct1])
  show "\<forall>u i. Pages g u = Some i \<longrightarrow> i < Size g \<and> Indices g ! i = u"
    by (rule r3[THEN conjunct1])
  show "\<forall>i < Size g. Pages g (Indices g ! i) = Some i" by (rule r4[THEN conjunct1])
  show "\<forall>i < Size g. distinct (OutLinks g ! i) \<and> (\<forall>j \<in> set (OutLinks g ! i). j < Size g)"
    by (rule r5[THEN conjunct1])
  show "\<forall>i < Size g. distinct (InLinks g ! i) \<and> (\<forall>j \<in> set (InLinks g ! i). j < Size g)"
    by (rule r6[THEN conjunct1])
  show "\<forall>i < Size g. \<forall>j < Size g. j \<in> set (OutLinks g ! i) \<longleftrightarrow> i \<in> set (InLinks g ! j)"
    by (rule r7[THEN conjunct1])
  show "\<forall>i < Size g. OutDegree g ! i = length (OutLinks g ! i)"
    by (rule r7[THEN conjunct2])
qed

lemma add_node_inv:
  assumes inv: "graph_inv g" and new: "Pages g u = None"
  shows "graph_inv (add_node u g)"
proof -
  let ?g = "add_node u g"
  let ?n = "Size g"
  have sz: "Size ?g = Suc ?n" by (simp add: add_node_def Size_def)
  note lens = graph_invD(1-3)[OF inv]
  note o = graph_invD[OF inv]
  have out: "OutLinks ?g ! i = (if i < ?n then OutLinks g ! i else [])" if "i < Suc ?n" for i
    using that lens by (auto simp: add_node_def nth_append less_Suc_eq)
  have inl: "InLinks ?g ! i = (if i < ?n then InLinks g ! i else [])" if "i < Suc ?n" for i
    using that lens by (auto simp: add_node_def nth_append less_Suc_eq)
  have deg: "OutDegree ?g ! i = (if i < ?n then OutDegree g ! i else 0)" if "i < Suc ?n" for i
    using that lens by (auto simp: add_node_def nth_append less_Suc_eq)
  have ind: "Indices ?g ! i = (if i < ?n then Indices g ! i else u)" if "i < Suc ?n" for i
    using that by (auto simp: add_node_def nth_append less_Suc_eq Size_def)
  have pg: "Pages ?g v = (if v = u then Some ?n else Pages g v)" for v
    by (simp add: add_node_def Size_def)
  have c1: "length (OutLinks ?g) = Size ?g" "length (InLinks ?g) = Size ?g"
    "length (OutDegree ?g) = Size ?g"
    unfolding sz by (simp_all add: add_node_def lens)
  have c2: "\<forall>v i. Pages ?g v = Some i \<longrightarrow> i < Size ?g \<and> Indices ?g ! i = v"
  proof (intro allI impI)
    fix v i assume a: "Pages ?g v = Some i"
    show "i < Size ?g \<and> Indices ?g ! i = v"
    proof (cases "v = u")
      case True then show ?thesis using a by (simp add: pg sz ind)
    next
      case False
      then have "Pages g v = Some i" using a by (simp add: pg)
      then have "i < ?n \<and> Indices g ! i = v" using o(4) by blast
      then show ?thesis by (simp add: sz ind)
    qed
  qed
  have c3: "\<forall>i < Size ?g. Pages ?g (Indices ?g ! i) = Some i"
  proof (intro allI impI)
    fix i assume a: "i < Size ?g"
    show "Pages ?g (Indices ?g ! i) = Some i"
    proof (cases "i < ?n")
      case True
      then have p: "Pages g (Indices g ! i) = Some i" using o(5) by blast
      then have "Indices g ! i \<noteq> u" using new by auto
      then show ?thesis using True p a by (simp add: pg ind sz)
    next
      case False then show ?thesis using a by (simp add: pg ind sz)
    qed
  qed
  have c4: "\<forall>i < Size ?g. distinct (OutLinks ?g ! i) \<and> (\<forall>j \<in> set (OutLinks ?g ! i). j < Size ?g)"
    unfolding sz using o(6) by (simp add: out less_Suc_eq)
  have c5: "\<forall>i < Size ?g. distinct (InLinks ?g ! i) \<and> (\<forall>j \<in> set (InLinks ?g ! i). j < Size ?g)"
    unfolding sz using o(7) by (simp add: inl less_Suc_eq)
  have c6: "\<forall>i < Size ?g. \<forall>j < Size ?g. j \<in> set (OutLinks ?g ! i) \<longleftrightarrow> i \<in> set (InLinks ?g ! j)"
  proof (intro allI impI)
    fix i j assume a: "i < Size ?g" "j < Size ?g"
    show "j \<in> set (OutLinks ?g ! i) \<longleftrightarrow> i \<in> set (InLinks ?g ! j)"
    proof (cases "i < ?n \<and> j < ?n")
      case True then show ?thesis using o(8) a by (simp add: out inl sz)
    next
      case False
      then consider "\<not> i < ?n" | "i < ?n" "\<not> j < ?n" by blast
      then show ?thesis
      proof cases
        case 1
        then have "i \<notin> set (InLinks g ! j)" if "j < ?n" using o(7) that by blast
        then show ?thesis using 1 a by (simp add: out inl sz)
      next
        case 2
        then have "j \<notin> set (OutLinks g ! i)" using o(6) by blast
        then show ?thesis using 2 a by (simp add: out inl sz)
      qed
    qed
  qed
  have c7: "\<forall>i < Size ?g. OutDegree ?g ! i = length (OutLinks ?g ! i)"
    unfolding sz using o(9) by (simp add: out deg less_Suc_eq)
  show ?thesis
    unfolding graph_inv_def using c1 c2 c3 c4 c5 c6 c7 by blast
qed

lemma AddPage_inv: "graph_inv g \<Longrightarrow> graph_inv (snd (AddPage u g))"
  by (cases "Pages g u") (simp_all add: AddPage_cases add_node_inv)

lemma AddPage_idx:
  assumes "graph_inv g" "AddPage u g = (i, g')"
  shows "i < Size g' \<and> Pages g' u = Some i"
proof (cases "Pages g u")
  case None
  then show ?thesis using assms(2) by (auto simp: AddPage_cases add_node_def Size_def)
next
  case (Some k)
  then have "k < Size g" using graph_invD(4)[OF assms(1)] by blast
  then show ?thesis using Some assms(2) by (auto simp: AddPage_cases)
qed

lemma AddPage_Size_mono: "AddPage u g = (i, g') \<Longrightarrow> Size g \<le> Size g'"
  by (cases "Pages g u") (auto simp: AddPage_cases add_node_def Size_def)

lemma AddPage_Pages_mono:
  "AddPage u g = (i, g') \<Longrightarrow> Pages g v = Some k \<Longrightarrow> Pages g' v = Some k"
  by (cases "Pages g u") (auto simp: AddPage_cases add_node_def)

lemma add_edge_inv:
  assumes inv: "graph_inv g" and fi: "fi < Size g" and ti: "ti < Size g"
    and new: "ti \<notin> set (OutLinks g ! fi)"
  shows "graph_inv (add_edge fi ti g)"
proof -
  let ?g = "add_edge fi ti g"
  have sz: "Size ?g = Size g" by (simp add: add_edge_def Size_def)
  note lens = graph_invD(1-3)[OF inv]
  note o = graph_invD[OF inv]
  have nin: "fi \<notin> set (InLinks g ! ti)"
    using o(8) fi ti new by blast
  have out: "OutLinks ?g ! i = (if i = fi then OutLinks g ! fi @ [ti] else OutLinks g ! i)"
    if "i < Size g" for i
    using that lens by (simp add: add_edge_def nth_list_update)
  have inl: "InLinks ?g ! i = (if i = ti then InLinks g ! ti @ [fi] else InLinks g ! i)"
    if "i < Size g" for i
    using that lens by (simp add: add_edge_def nth_list_update)
  have deg: "OutDegree ?g ! i = (if i = fi then OutDegree g ! fi + 1 else OutDegree g ! i)"
    if "i < Size g" for i
    using that lens by (simp add: add_edge_def nth_list_update)
  have c1: "length (OutLinks ?g) = Size ?g" "length (InLinks ?g) = Size ?g"
    "length (OutDegree ?g) = Size ?g"
    unfolding sz by (simp_all add: add_edge_def lens)
  have pg: "Pages ?g = Pages g" "Indices ?g = Indices g" by (simp_all add: add_edge_def)
  have c2: "\<forall>u i. Pages ?g u = Some i \<longrightarrow> i < Size ?g \<and> Indices ?g ! i = u"
    unfolding sz pg using o(4) .
  have c3: "\<forall>i < Size ?g. Pages ?g (Indices ?g ! i) = Some i"
    unfolding sz pg using o(5) .
  have c4: "\<forall>i < Size ?g. distinct (OutLinks ?g ! i) \<and> (\<forall>j \<in> set (OutLinks ?g ! i). j < Size ?g)"
    unfolding sz using o(6) new ti fi by (simp add: out)
  have c5: "\<forall>i < Size ?g. distinct (InLinks ?g ! i) \<and> (\<forall>j \<in> set (InLinks ?g ! i). j < Size ?g)"
    unfolding sz using o(7) nin fi ti by (simp add: inl)
  have c6: "\<forall>i < Size ?g. \<forall>j < Size ?g. j \<in> set (OutLinks ?g ! i) \<longleftrightarrow> i \<in> set (InLinks ?g ! j)"
    unfolding sz using o(8) by (auto simp: out inl)
  have c7: "\<forall>i < Size ?g. OutDegree ?g ! i = length (OutLinks ?g ! i)"
    unfolding sz using o(9) by (simp add: out deg)
  show ?thesis
    unfolding graph_inv_def using c1 c2 c3 c4 c5 c6 c7 by blast
qed

lemma AddLink_unfold:
  assumes "graph_inv g"
  shows "\<exists>fi ti g2. AddPage to (snd (AddPage from g)) = (ti, g2) \<and> fst (AddPage from g) = fi \<and>
           graph_inv g2 \<and>
           fi < Size g2 \<and> ti < Size g2 \<and> Pages g2 from = Some fi \<and> Pages g2 to = Some ti \<and>
           AddLink from to g = Some (if ti \<in> set (OutLinks g2 ! fi) then g2 else add_edge fi ti g2)"
proof -
  obtain fi g1 where p1: "AddPage from g = (fi, g1)" by (cases "AddPage from g")
  obtain ti g2 where p2: "AddPage to g1 = (ti, g2)" by (cases "AddPage to g1")
  have i1: "graph_inv g1" using AddPage_inv[OF assms, of "from"] p1 by simp
  have i2: "graph_inv g2" using AddPage_inv[OF i1, of to] p2 by simp
  have f1: "fi < Size g1" "Pages g1 from = Some fi" using AddPage_idx[OF assms p1] by simp_all
  have t2: "ti < Size g2" "Pages g2 to = Some ti" using AddPage_idx[OF i1 p2] by simp_all
  have f2: "fi < Size g2" using f1 AddPage_Size_mono[OF p2] by simp
  have pf2: "Pages g2 from = Some fi"
    using AddPage_Pages_mono[OF p2 f1(2)] .
  note lens = graph_invD(1-3)[OF i2]
  have "AddLink from to g = Some (if ti \<in> set (OutLinks g2 ! fi) then g2 else add_edge fi ti g2)"
    using p1 p2 f2 t2 lens by (simp add: AddLink_def index_at_def add_edge_def)
  then show ?thesis using p1 p2 i2 f2 t2 pf2 by simp
qed

lemma AddLink_inv:
  assumes "graph_inv g"
  shows "\<exists>g'. AddLink from to g = Some g' \<and> graph_inv g'"
proof -
  from AddLink_unfold[OF assms, of to "from"] obtain fi ti g2 where
    h: "graph_inv g2" "fi < Size g2" "ti < Size g2"
       "AddLink from to g = Some (if ti \<in> set (OutLinks g2 ! fi) then g2 else add_edge fi ti g2)"
    by blast
  show ?thesis using h add_edge_inv[of g2 fi ti] by auto
qed

lemma run_calls_inv:
  "graph_inv g \<Longrightarrow> \<exists>g'. run_calls cs g = Some g' \<and> graph_inv g'"
proof (induction cs arbitrary: g)
  case Nil then show ?case by simp
next
  case (Cons c cs)
  show ?case
  proof (cases c)
    case (CallAddPage u)
    then show ?thesis using Cons.IH[OF AddPage_inv[OF Cons.prems, of u]] by simp
  next
    case (CallAddLink f t)
    from AddLink_inv[OF Cons.prems, of f t] obtain g1 where
      "AddLink f t g = Some g1" "graph_inv g1" by blast
    then show ?thesis using Cons.IH[of g1] CallAddLink by simp
  qed
qed

subsection \<open>Edges recorded by a sequence of calls\<close>














lemma demo_graph_built:
  "run_calls [CallAddLink ''/a'' ''/b'', CallAddLink ''/a'' ''/c'', CallAddLink ''/b'' ''/c'']
     NewGraph = Some demo_graph"
  by (simp add: AddLink_def AddPage_def NewGraph_def index_at_def demo_graph_def numeral_2_eq_2)

lemma demo_graph_inv: "graph_inv demo_graph"
  using run_calls_inv[OF graph_inv_NewGraph,
      of "[CallAddLink ''/a'' ''/b'', CallAddLink ''/a'' ''/c'', CallAddLink ''/b'' ''/c'']"]
  unfolding demo_graph_built by simp

lemma count_list_distinct:
  "distinct xs \<Longrightarrow> count_list xs x = (if x \<in> set xs then 1 else 0)"
  by (induction xs) auto

lemma AddLink_idem:
  assumes inv: "graph_inv g" and r: "AddLink from to g = Some g'"
  shows "AddLink from to g' = Some g'"
proof -
  from AddLink_unfold[OF inv, of to "from"] obtain fi ti g2 where
    i2: "graph_inv g2" and b: "fi < Size g2" "ti < Size g2"
    and pg: "Pages g2 from = Some fi" "Pages g2 to = Some ti"
    and r2: "AddLink from to g = Some (if ti \<in> set (OutLinks g2 ! fi) then g2 else add_edge fi ti g2)"
    by blast
  have g': "g' = (if ti \<in> set (OutLinks g2 ! fi) then g2 else add_edge fi ti g2)"
    using r r2 by simp
  have len: "length (OutLinks g2) = Size g2" by (rule graph_invD(1)[OF i2])
  have pg': "Pages g' from = Some fi" "Pages g' to = Some ti"
    using pg by (simp_all add: g' add_edge_def)
  have l': "fi < length (OutLinks g')"
    using b len by (simp add: g' add_edge_def)
  have m': "ti \<in> set (OutLinks g' ! fi)"
    using b len by (simp add: g' add_edge_def)
  show ?thesis
    by (simp add: AddLink_def AddPage_existing[OF pg'(1)] AddPage_existing[OF pg'(2)]
        index_at_def l' m')
qed

section \<open>Properties of the PageRank loop\<close>

lemma for_each_append:
  "for_each (xs @ ys) body s =
     (case for_each xs body s of None \<Rightarrow> None | Some s' \<Rightarrow> for_each ys body s')"
  by (induction xs arbitrary: s) (auto split: option.splits)

lemma for_each_sum:
  fixes h :: "'a \<Rightarrow> real"
  assumes "\<And>x acc. x \<in> set xs \<Longrightarrow> body x acc = Some (acc + h x)"
  shows "for_each xs body s = Some (s + sum_list (map h xs))"
  using assms by (induction xs arbitrary: s) (auto simp: add.assoc)

lemma for_each_store:
  assumes "\<And>i ns. i < n \<Longrightarrow> length ns = n \<Longrightarrow> body i ns = Some (ns[i := v i])"
    and "k \<le> n" and "length ns = n"
  shows "for_each [0..<k] body ns = Some (map v [0..<k] @ drop k ns)"
  using assms(2)
proof (induction k)
  case 0
  then show ?case by simp
next
  case (Suc k)
  then have IH: "for_each [0..<k] body ns = Some (map v [0..<k] @ drop k ns)" by simp
  have len: "length (map v [0..<k] @ drop k ns) = n" using Suc.prems assms(3) by simp
  have dr: "drop k ns = ns ! k # drop (Suc k) ns"
    using Suc.prems assms(3) by (simp add: Cons_nth_drop_Suc)
  have upd: "(map v [0..<k] @ drop k ns)[k := v k] = map v [0..<Suc k] @ drop (Suc k) ns"
    by (simp add: list_update_append dr)
  show ?case
    using IH assms(1)[of k "map v [0..<k] @ drop k ns"] len upd Suc.prems
    by (simp add: for_each_append)
qed

lemma danglingSum_eq:
  assumes "length (OutDegree g) = n" "length scores = n"
  shows "danglingSum g n scores = Some (dangling_total g n scores)"
proof -
  have "danglingSum g n scores
        = Some (0 + sum_list (map (\<lambda>i. if OutDegree g ! i = 0 then scores ! i else 0) [0..<n]))"
    unfolding danglingSum_def
    by (rule for_each_sum) (use assms in \<open>simp add: index_at_def\<close>)
  then show ?thesis by (simp add: dangling_total_def)
qed

lemma addInLinks_eq:
  assumes "length (OutDegree g) = n" "length scores = n" "\<forall>j \<in> set inl. j < n"
  shows "addInLinks g d scores inl start = Some (start + (\<Sum>j\<leftarrow>inl. link_share g d scores j))"
  unfolding addInLinks_def
  by (rule for_each_sum) (use assms in \<open>simp add: index_at_def link_share_def\<close>)

lemma calcNewScores_eq:
  assumes inv: "graph_inv g" and n: "Size g = n" and ls: "length scores = n"
    and lb: "length newScores = n"
  shows "calcNewScores g d n ((1 - d) / real n) (d * dangling_total g n scores / real n)
           scores newScores = Some (map (next_score g d n scores) [0..<n])"
proof -
  note o = graph_invD[OF inv]
  have "calcNewScores g d n ((1 - d) / real n) (d * dangling_total g n scores / real n)
           scores newScores
        = Some (map (next_score g d n scores) [0..<n] @ drop n newScores)"
    unfolding calcNewScores_def
  proof (rule for_each_store[where n = n])
    fix i ns assume i: "i < n" and l: "length (ns :: real list) = n"
    have bnd: "\<forall>j \<in> set (InLinks g ! i). j < n" using o(7) i n by blast
    have "addInLinks g d scores (InLinks g ! i)
            ((1 - d) / real n + d * dangling_total g n scores / real n)
          = Some (next_score g d n scores i)"
      using addInLinks_eq[OF _ ls bnd] o(3) n by (simp add: next_score_def)
    then show "(case index_at (InLinks g) i of
                  None \<Rightarrow> None
                | Some inl \<Rightarrow>
                    (case addInLinks g d scores inl
                            ((1 - d) / real n + d * dangling_total g n scores / real n) of
                       None \<Rightarrow> None
                     | Some v \<Rightarrow> if i < length ns then Some (ns[i := v]) else None))
               = Some (ns[i := next_score g d n scores i])"
      using i l o(2) n by (simp add: index_at_def)
  qed (use lb in simp_all)
  then show ?thesis using lb by simp
qed

lemma l1_diff_total:
  assumes "length a = n" "length b = n"
  shows "\<exists>x. l1_diff n a b = Some x"
proof -
  have "l1_diff n a b = Some (0 + sum_list (map (\<lambda>i. \<bar>a ! i - b ! i\<bar>) [0..<n]))"
    unfolding l1_diff_def
    by (rule for_each_sum) (use assms in \<open>simp add: index_at_def\<close>)
  then show ?thesis by blast
qed

lemma l1_diff_eq:
  assumes "length a = n" "length b = n"
  shows "l1_diff n a b = Some (\<Sum>i\<leftarrow>[0..<n]. \<bar>a ! i - b ! i\<bar>)"
proof -
  have "l1_diff n a b = Some (0 + sum_list (map (\<lambda>i. \<bar>a ! i - b ! i\<bar>) [0..<n]))"
    unfolding l1_diff_def
    by (rule for_each_sum) (use assms in \<open>simp add: index_at_def\<close>)
  then show ?thesis by simp
qed

lemma iteration_eq:
  assumes inv: "graph_inv g" and n: "Size g = n" and ls: "length scores = n"
    and lb: "length newScores = n"
  shows "iteration g d n ((1 - d) / real n) scores newScores
         = Some (map (next_score g d n scores) [0..<n], scores,
                 (\<Sum>i\<leftarrow>[0..<n]. \<bar>map (next_score g d n scores) [0..<n] ! i - scores ! i\<bar>))"
proof -
  have dl: "length (OutDegree g) = n" using graph_invD(3)[OF inv] n by simp
  show ?thesis
    unfolding iteration_def
    by (simp add: danglingSum_eq[OF dl ls] calcNewScores_eq[OF inv n ls lb]
        l1_diff_eq[OF _ ls] Let_def)
qed


lemma in_link_mass:
  fixes c :: "nat \<Rightarrow> real"
  assumes inv: "graph_inv g" and n: "Size g = n"
  shows "(\<Sum>i\<leftarrow>[0..<n]. \<Sum>j\<leftarrow>InLinks g ! i. c j) = (\<Sum>j\<leftarrow>[0..<n]. real (OutDegree g ! j) * c j)"
proof -
  note o = graph_invD[OF inv, unfolded n]
  have row: "(\<Sum>j\<leftarrow>InLinks g ! i. c j) = (\<Sum>j\<in>{0..<n}. if i \<in> set (OutLinks g ! j) then c j else 0)"
    if i: "i < n" for i
  proof -
    have d: "distinct (InLinks g ! i)" and sub: "set (InLinks g ! i) \<subseteq> {0..<n}"
      using o(7) i by auto
    have "(\<Sum>j\<leftarrow>InLinks g ! i. c j) = (\<Sum>j\<in>set (InLinks g ! i). c j)"
      using d by (simp add: sum_list_distinct_conv_sum_set)
    also have "\<dots> = (\<Sum>j\<in>{0..<n}. if j \<in> set (InLinks g ! i) then c j else 0)"
      using sub by (simp add: sum.If_cases Int_absorb1)
    also have "\<dots> = (\<Sum>j\<in>{0..<n}. if i \<in> set (OutLinks g ! j) then c j else 0)"
      by (rule sum.cong) (use o(8) i in auto)
    finally show ?thesis .
  qed
  have col: "(\<Sum>i\<in>{0..<n}. if i \<in> set (OutLinks g ! j) then c j else 0)
             = real (OutDegree g ! j) * c j" if j: "j < n" for j
  proof -
    have d: "distinct (OutLinks g ! j)" and sub: "set (OutLinks g ! j) \<subseteq> {0..<n}"
      using o(6) j by auto
    have "(\<Sum>i\<in>{0..<n}. if i \<in> set (OutLinks g ! j) then c j else 0)
          = (\<Sum>i\<in>set (OutLinks g ! j). c j)"
      using sub by (simp add: sum.If_cases Int_absorb1)
    also have "\<dots> = real (length (OutLinks g ! j)) * c j"
      using d by (simp add: distinct_card)
    finally show ?thesis using o(9) j by simp
  qed
  have "(\<Sum>i\<leftarrow>[0..<n]. \<Sum>j\<leftarrow>InLinks g ! i. c j)
        = (\<Sum>i\<in>{0..<n}. \<Sum>j\<leftarrow>InLinks g ! i. c j)"
    by (simp add: interv_sum_list_conv_sum_set_nat)
  also have "\<dots> = (\<Sum>i\<in>{0..<n}. \<Sum>j\<in>{0..<n}. if i \<in> set (OutLinks g ! j) then c j else 0)"
    by (rule sum.cong) (simp_all add: row)
  also have "\<dots> = (\<Sum>j\<in>{0..<n}. \<Sum>i\<in>{0..<n}. if i \<in> set (OutLinks g ! j) then c j else 0)"
    by (rule sum.swap)
  also have "\<dots> = (\<Sum>j\<in>{0..<n}. real (OutDegree g ! j) * c j)"
    by (rule sum.cong) (simp_all add: col)
  finally show ?thesis by (simp add: interv_sum_list_conv_sum_set_nat)
qed

lemma next_score_mass:
  assumes inv: "graph_inv g" and n: "Size g = n" and pos: "0 < n" and ls: "length scores = n"
  shows "sum_list (map (next_score g d n scores) [0..<n]) = (1 - d) + d * sum_list scores"
proof -
  have split: "sum_list (map (next_score g d n scores) [0..<n])
      = (\<Sum>i\<leftarrow>[0..<n]. (1 - d) / real n + d * dangling_total g n scores / real n)
        + (\<Sum>i\<leftarrow>[0..<n]. \<Sum>j\<leftarrow>InLinks g ! i. link_share g d scores j)"
    unfolding next_score_def by (simp add: sum_list_addf)
  have const: "(\<Sum>i\<leftarrow>[0..<n]. (1 - d) / real n + d * dangling_total g n scores / real n)
      = (1 - d) + d * dangling_total g n scores"
    using pos by (simp add: sum_list_triv field_simps)
  have share: "real (OutDegree g ! j) * link_share g d scores j
      = d * (if OutDegree g ! j = 0 then 0 else scores ! j)" for j
    by (simp add: link_share_def)
  have links: "(\<Sum>i\<leftarrow>[0..<n]. \<Sum>j\<leftarrow>InLinks g ! i. link_share g d scores j)
      = d * (\<Sum>j\<leftarrow>[0..<n]. if OutDegree g ! j = 0 then 0 else scores ! j)"
    by (simp add: in_link_mass[OF inv n] share sum_list_const_mult)
  have total: "dangling_total g n scores
      + (\<Sum>j\<leftarrow>[0..<n]. if OutDegree g ! j = 0 then 0 else scores ! j) = sum_list scores"
  proof -
    have "dangling_total g n scores
      + (\<Sum>j\<leftarrow>[0..<n]. if OutDegree g ! j = 0 then 0 else scores ! j)
      = (\<Sum>j\<leftarrow>[0..<n]. scores ! j)"
      unfolding dangling_total_def sum_list_addf[symmetric]
      by (rule arg_cong[where f = sum_list]) simp
    also have "\<dots> = sum_list scores"
      using ls by (simp add: sum_list_sum_nth interv_sum_list_conv_sum_set_nat)
    finally show ?thesis .
  qed
  have "d * dangling_total g n scores
      + d * (\<Sum>j\<leftarrow>[0..<n]. if OutDegree g ! j = 0 then 0 else scores ! j) = d * sum_list scores"
    unfolding total[symmetric] by (simp add: distrib_left)
  then show ?thesis
    unfolding split const links by simp
qed


lemma iterate_mass:
  assumes inv: "graph_inv g" and n: "Size g = n" and pos: "0 < n"
    and t: "teleport = (1 - DampingFactor config) / real n"
  shows "length scores = n \<Longrightarrow> length newScores = n \<Longrightarrow> sum_list scores = 1 \<Longrightarrow>
         \<exists>res its conv. iterate g config n teleport iter iterations scores newScores
                           = Some (res, its, conv) \<and> length res = n \<and> sum_list res = 1"
  using inv n pos t
proof (induction g config n teleport iter iterations scores newScores rule: iterate.induct)
  case (1 g config n teleport iter iterations scores newScores)
  let ?d = "DampingFactor config"
  let ?ns = "map (next_score g ?d n scores) [0..<n]"
  let ?diff = "\<Sum>i\<leftarrow>[0..<n]. \<bar>?ns ! i - scores ! i\<bar>"
  have it: "iteration g ?d n teleport scores newScores = Some (?ns, scores, ?diff)"
    using iteration_eq[OF "1.prems"(4,5,1,2)] "1.prems"(7) by simp
  have mass: "sum_list ?ns = 1"
    using next_score_mass[OF "1.prems"(4,5,6,1), of ?d] "1.prems"(3) by simp
  show ?case
  proof (cases "iter < MaxIterations config")
    case False
    then have "iterate g config n teleport iter iterations scores newScores
               = Some (scores, iterations, False)"
      by (subst iterate.simps) simp
    then show ?thesis using "1.prems"(1,3) by blast
  next
    case True
    show ?thesis
    proof (cases "?diff < Tolerance config")
      case c: True
      then have "iterate g config n teleport iter iterations scores newScores
                 = Some (?ns, iter + 1, True)"
        using True it by (subst iterate.simps) simp
      moreover have "length ?ns = n" by simp
      ultimately show ?thesis using mass by blast
    next
      case c: False
      have "\<exists>res its conv. iterate g config n teleport (iter + 1) (iter + 1) ?ns scores
                           = Some (res, its, conv) \<and> length res = n \<and> sum_list res = 1"
        by (rule "1.IH"[OF True it refl refl c]) (use "1.prems" mass in simp_all)
      moreover have "iterate g config n teleport iter iterations scores newScores
                 = iterate g config n teleport (iter + 1) (iter + 1) ?ns scores"
        using True it c by (subst iterate.simps) simp
      ultimately show ?thesis by simp
    qed
  qed
qed

lemma Compute_uniform_start:
  "0 < n \<Longrightarrow> sum_list (replicate n (1 / real n)) = 1"
  by (simp add: sum_list_replicate)



section \<open>Properties of the crawler\<close>









lemma fetch_stage_fetched:
  "fetch_stage parse cfg w task st = (out, st1, links) \<Longrightarrow>
   fetched st1 = fetched st \<or>
   (fetched st1 = fetched st @ [task] \<and> \<not> (MaxDepth cfg > 0 \<and> depth task > MaxDepth cfg))"
  by (auto simp: fetch_stage_def addBrokenLink_def Let_def split: if_splits option.splits response.splits)


lemma worker_step_fetched:
  assumes t: "t \<in> set (fetched (shared (worker_step parse cfg baseURL w i s)))"
  shows "t \<in> set (fetched (shared s)) \<or> \<not> (MaxDepth cfg > 0 \<and> depth t > MaxDepth cfg)"
proof (cases "i < length (workers s)")
  case False
  then show ?thesis using t by (simp add: worker_step_def)
next
  case i: True
  show ?thesis
  proof (cases "workers s ! i")
    case Idle
    show ?thesis
    proof (cases "tasks (shared s)")
      case Nil
      then show ?thesis using t i Idle by (simp add: worker_step_def)
    next
      case (Cons task rest)
      obtain out st1 links where
        f: "fetch_stage parse cfg w task ((shared s)\<lparr>tasks := rest\<rparr>) = (out, st1, links)"
        by (cases "fetch_stage parse cfg w task ((shared s)\<lparr>tasks := rest\<rparr>)")
      have sh: "shared (worker_step parse cfg baseURL w i s) = st1"
        using i Idle Cons f by (simp add: worker_step_def)
      show ?thesis using fetch_stage_fetched[OF f] t unfolding sh by auto
    qed
  next
    case (Queueing task links c)
    have "fetched (shared (worker_step parse cfg baseURL w i s)) = fetched (shared s)"
      using i Queueing
      by (cases links; cases c) (simp_all add: worker_step_def markVisited_def try_send_def)
    then show ?thesis using t by simp
  qed
qed

lemma sys_step_fetched:
  assumes t: "t \<in> set (fetched (shared (sys_step parse cfg baseURL w e s)))"
  shows "t \<in> set (fetched (shared s)) \<or> \<not> (MaxDepth cfg > 0 \<and> depth t > MaxDepth cfg)"
proof (cases "\<exists>r. mon s = Done r")
  case True
  then show ?thesis using t by (auto simp: sys_step_def)
next
  case False
  show ?thesis
  proof (cases e)
    case (WorkerStep i)
    then have "sys_step parse cfg baseURL w e s = worker_step parse cfg baseURL w i s"
      using False by (cases "mon s") (simp_all add: sys_step_def)
    then show ?thesis using t worker_step_fetched by metis
  next
    case MonitorStep
    then have "sys_step parse cfg baseURL w e s = monitor_step s"
      using False by (cases "mon s") (simp_all add: sys_step_def)
    moreover have "shared (monitor_step s) = shared s"
      by (cases "mon s") (simp_all add: monitor_step_def Let_def)
    ultimately show ?thesis using t by simp
  qed
qed

lemma run_events_fetched:
  "t \<in> set (fetched (shared (run_events parse cfg baseURL w es s))) \<Longrightarrow>
   t \<in> set (fetched (shared s)) \<or> \<not> (MaxDepth cfg > 0 \<and> depth t > MaxDepth cfg)"
proof (induction es arbitrary: s)
  case Nil
  then show ?case by (simp add: run_events_def)
next
  case (Cons e es)
  have unf: "run_events parse cfg baseURL w (e # es) s
             = run_events parse cfg baseURL w es (sys_step parse cfg baseURL w e s)"
    by (simp add: run_events_def)
  from Cons.IH[of "sys_step parse cfg baseURL w e s"] Cons.prems
  have "t \<in> set (fetched (shared (sys_step parse cfg baseURL w e s)))
        \<or> \<not> (MaxDepth cfg > 0 \<and> depth t > MaxDepth cfg)"
    unfolding unf by blast
  then show ?case using sys_step_fetched by metis
qed

lemma Crawl_valid:
  assumes "parse startURL = Some parsed" "Scheme parsed = ''http'' \<or> Scheme parsed = ''https''"
  shows "Crawl parse cfg w es startURL
         = (case mon (run_events parse cfg parsed w es (init_sys cfg startURL)) of
              Done r \<Rightarrow>
                Some (Inr \<lparr>StartURL = startURL,
                           TotalVisited = length (visited (shared
                             (run_events parse cfg parsed w es (init_sys cfg startURL)))),
                           BrokenLinks = broken (shared
                             (run_events parse cfg parsed w es (init_sys cfg startURL)))\<rparr>)
            | _ \<Rightarrow> None,
            fetched (shared (run_events parse cfg parsed w es (init_sys cfg startURL))))"
  using assms by (auto simp: Crawl_def Let_def)

lemma Crawl_fetched:
  assumes "t \<in> set (snd (Crawl parse cfg w es startURL))"
  shows "\<not> (MaxDepth cfg > 0 \<and> depth t > MaxDepth cfg)"
proof (cases "parse startURL")
  case None
  then show ?thesis using assms by (simp add: Crawl_def)
next
  case (Some parsed)
  show ?thesis
  proof (cases "Scheme parsed \<noteq> ''http'' \<and> Scheme parsed \<noteq> ''https''")
    case True
    then show ?thesis using assms Some by (simp add: Crawl_def)
  next
    case False
    then have "t \<in> set (fetched (shared (run_events parse cfg parsed w es (init_sys cfg startURL))))"
      using assms Crawl_valid[of parse startURL parsed cfg w es] Some by simp
    then show ?thesis
      using run_events_fetched[of t parse cfg parsed w es "init_sys cfg startURL"]
      by (simp add: init_sys_def markVisited_def)
  qed
qed










lemma sys_step_worker:
  "mon s = Sleeping \<Longrightarrow>
   sys_step parse cfg baseURL w (WorkerStep i) s = worker_step parse cfg baseURL w i s"
  by (simp add: sys_step_def)
















section \<open>Properties of the robots.txt checker\<close>

lemma IsBlocked_fail_open:
  "\<not> loaded r \<Longrightarrow> \<not> IsBlocked parse r u"
  "rules r = [] \<Longrightarrow> \<not> IsBlocked parse r u"
  "parse u = None \<Longrightarrow> \<not> IsBlocked parse r u"
  by (simp_all add: IsBlocked_def)

lemma IsBlocked_only_by_rule:
  assumes "IsBlocked parse r u"
  shows "loaded r \<and>
         (\<exists>parsed rule. parse u = Some parsed \<and> rule \<in> set (rules r) \<and>
            matchesRule (if Path parsed = [] then ''/'' else Path parsed) (path rule))"
  using assms
  by (auto simp: IsBlocked_def Let_def list_ex_iff split: if_splits option.splits)

lemma Load_fail_open:
  "\<not> IsBlocked parse NewRobotsChecker u"
  "\<not> IsBlocked parse (fst (Load (GetFailed err) NewRobotsChecker)) u"
  "status \<noteq> 200 \<Longrightarrow> \<not> IsBlocked parse (fst (Load (GetResponse status lines scanErr) NewRobotsChecker)) u"
  by (simp_all add: IsBlocked_def Load_def NewRobotsChecker_def)

section \<open>Claims about the link graph\<close>

text \<open>
  C4. Every sequence of \<^verbatim>\<open>AddPage\<close>/\<^verbatim>\<open>AddLink\<close> calls on a new graph runs without a
  panic and leaves a graph that satisfies the invariant; in it every ordered edge is
  recorded at most once, the same number of times in the out-list of its source and in
  the in-list of its target, and the out-degree is the length of the out-list. A further
  \<^verbatim>\<open>AddLink(from, to)\<close> succeeds, a repetition of it changes nothing, and if the edge was
  not there (after both pages were added), it appends \<open>to\<close> to the out-list of \<open>from\<close>,
  \<open>from\<close> to the in-list of \<open>to\<close>, adds one to the out-degree of \<open>from\<close>, and changes
  nothing else.
\<close>

theorem AddLink_idempotent_invariant:
  "\<exists>g. run_calls cs NewGraph = Some g \<and> graph_inv g \<and>
       (\<forall>i < Size g. \<forall>j < Size g.
           count_list (OutLinks g ! i) j \<le> 1 \<and>
           count_list (InLinks g ! j) i = count_list (OutLinks g ! i) j) \<and>
       (\<forall>i < Size g. OutDegree g ! i = length (OutLinks g ! i)) \<and>
       (\<exists>fromIdx toIdx g2 g'.
           fst (AddPage from g) = fromIdx \<and>
           AddPage to (snd (AddPage from g)) = (toIdx, g2) \<and>
           AddLink from to g = Some g' \<and> graph_inv g' \<and>
           AddLink from to g' = Some g' \<and>
           (if toIdx \<in> set (OutLinks g2 ! fromIdx) then g' = g2
            else g' = add_edge fromIdx toIdx g2 \<and>
                 OutDegree g' ! fromIdx = OutDegree g2 ! fromIdx + 1 \<and>
                 OutLinks g' ! fromIdx = OutLinks g2 ! fromIdx @ [toIdx] \<and>
                 InLinks g' ! toIdx = InLinks g2 ! toIdx @ [fromIdx]))"
proof -
  from run_calls_inv[OF graph_inv_NewGraph, of cs] obtain g where
    g: "run_calls cs NewGraph = Some g" and inv: "graph_inv g" by blast
  note o = graph_invD[OF inv]
  have cnt: "\<forall>i < Size g. \<forall>j < Size g.
           count_list (OutLinks g ! i) j \<le> 1 \<and>
           count_list (InLinks g ! j) i = count_list (OutLinks g ! i) j"
  proof (intro allI impI)
    fix i j assume i: "i < Size g" and j: "j < Size g"
    have d: "distinct (OutLinks g ! i)" "distinct (InLinks g ! j)" using o(6,7) i j by blast+
    have "j \<in> set (OutLinks g ! i) \<longleftrightarrow> i \<in> set (InLinks g ! j)" using o(8) i j by blast
    then show "count_list (OutLinks g ! i) j \<le> 1 \<and>
           count_list (InLinks g ! j) i = count_list (OutLinks g ! i) j"
      by (simp add: count_list_distinct[OF d(1)] count_list_distinct[OF d(2)])
  qed
  from AddLink_unfold[OF inv, of to "from"] obtain fi ti g2 where
    p: "AddPage to (snd (AddPage from g)) = (ti, g2)" "fst (AddPage from g) = fi"
    and i2: "graph_inv g2" and b: "fi < Size g2" "ti < Size g2"
    and r: "AddLink from to g = Some (if ti \<in> set (OutLinks g2 ! fi) then g2 else add_edge fi ti g2)"
    by blast
  let ?g' = "if ti \<in> set (OutLinks g2 ! fi) then g2 else add_edge fi ti g2"
  have inv': "graph_inv ?g'" using i2 add_edge_inv[OF i2 b] by simp
  have idem: "AddLink from to ?g' = Some ?g'" by (rule AddLink_idem[OF inv r])
  note l2 = graph_invD(1-3)[OF i2]
  have upd: "OutDegree (add_edge fi ti g2) ! fi = OutDegree g2 ! fi + 1"
    "OutLinks (add_edge fi ti g2) ! fi = OutLinks g2 ! fi @ [ti]"
    "InLinks (add_edge fi ti g2) ! ti = InLinks g2 ! ti @ [fi]"
    using b l2 by (simp_all add: add_edge_def)
  have last: "if ti \<in> set (OutLinks g2 ! fi) then ?g' = g2
            else ?g' = add_edge fi ti g2 \<and>
                 OutDegree ?g' ! fi = OutDegree g2 ! fi + 1 \<and>
                 OutLinks ?g' ! fi = OutLinks g2 ! fi @ [ti] \<and>
                 InLinks ?g' ! ti = InLinks g2 ! ti @ [fi]"
    using upd by simp
  show ?thesis
    apply (rule exI[of _ g])
    apply (intro conjI g inv cnt o(9))
    apply (rule exI[of _ fi], rule exI[of _ ti], rule exI[of _ g2], rule exI[of _ ?g'])
    apply (intro conjI p(2) p(1) r inv' idem last)
    done
qed


theorem AddLink_idempotent_invariant_witness:
  "run_calls [CallAddLink ''/a'' ''/b'', CallAddLink ''/a'' ''/c''] NewGraph
     = Some (demo_graph\<lparr>OutLinks := [[1, 2], [], []], InLinks := [[], [0], [0]],
                         OutDegree := [2, 0, 0]\<rparr>) \<and>
   AddLink ''/a'' ''/c'' (demo_graph\<lparr>OutLinks := [[1, 2], [], []], InLinks := [[], [0], [0]],
                            OutDegree := [2, 0, 0]\<rparr>)
     = Some (demo_graph\<lparr>OutLinks := [[1, 2], [], []], InLinks := [[], [0], [0]],
                         OutDegree := [2, 0, 0]\<rparr>) \<and>
   AddLink ''/b'' ''/c'' (demo_graph\<lparr>OutLinks := [[1, 2], [], []], InLinks := [[], [0], [0]],
                            OutDegree := [2, 0, 0]\<rparr>) = Some demo_graph \<and>
   AddLink ''/b'' ''/c'' demo_graph = Some demo_graph \<and>
   graph_inv demo_graph \<and>
   OutDegree demo_graph ! 1 = length (OutLinks demo_graph ! 1) \<and>
   count_list (OutLinks demo_graph ! 0) 2 = 1 \<and> count_list (InLinks demo_graph ! 2) 0 = 1"
proof -
  let ?cs = "[CallAddLink ''/a'' ''/b'', CallAddLink ''/a'' ''/c'']"
  let ?g = "demo_graph\<lparr>OutLinks := [[1, 2], [], []], InLinks := [[], [0], [0]],
                         OutDegree := [2, 0, 0]\<rparr>"
  have run: "run_calls ?cs NewGraph = Some ?g"
    by (simp add: AddLink_def AddPage_def NewGraph_def index_at_def demo_graph_def numeral_2_eq_2)
  have a1: "AddLink ''/a'' ''/c'' ?g = Some ?g"
    by (simp add: AddLink_def AddPage_def index_at_def demo_graph_def)
  have a2: "AddLink ''/b'' ''/c'' ?g = Some demo_graph"
    by (simp add: AddLink_def AddPage_def index_at_def demo_graph_def)
  from AddLink_idempotent_invariant[of ?cs "''/b''" "''/c''"] obtain g g' where
    h: "run_calls ?cs NewGraph = Some g" "AddLink ''/b'' ''/c'' g = Some g'" "graph_inv g'"
       "AddLink ''/b'' ''/c'' g' = Some g'"
    by blast
  have "g = ?g" using h(1) run by simp
  then have "g' = demo_graph" using h(2) a2 by simp
  then have inv: "graph_inv demo_graph" and idem: "AddLink ''/b'' ''/c'' demo_graph = Some demo_graph"
    using h(3,4) by simp_all
  have rest: "OutDegree demo_graph ! 1 = length (OutLinks demo_graph ! 1) \<and>
      count_list (OutLinks demo_graph ! 0) 2 = 1 \<and> count_list (InLinks demo_graph ! 2) 0 = 1"
    by (simp add: demo_graph_def)
  show ?thesis
    by (intro conjI run a1 a2 idem inv rest[THEN conjunct1] rest[THEN conjunct2, THEN conjunct1]
        rest[THEN conjunct2, THEN conjunct2])
qed

section \<open>Claims about the PageRank computation\<close>

text \<open>
  C1. On every graph built by a sequence of \<^verbatim>\<open>AddPage\<close>/\<^verbatim>\<open>AddLink\<close> calls that has at
  least one node, one pass of the loop of \<^verbatim>\<open>Compute\<close> maps a score vector of total 1 to a
  score vector of total 1 (teleport share, dangling share and link shares add up to the
  old total), for every damping factor; and \<^verbatim>\<open>Compute\<close> returns, with a score vector of
  total 1, for every configuration. The arithmetic is exact (\<open>real\<close>), as the claim says.
\<close>

theorem Compute_mass_conserved:
  assumes "run_calls cs NewGraph = Some g" and "1 \<le> Size g"
  shows "(\<forall>scores newScores.
            length scores = Size g \<longrightarrow> length newScores = Size g \<longrightarrow> sum_list scores = 1 \<longrightarrow>
            (\<exists>ns buf diff.
               iteration g d (Size g) ((1 - d) / real (Size g)) scores newScores
                 = Some (ns, buf, diff) \<and> sum_list ns = 1))
         \<and> (\<exists>scores its conv.
               Compute g config = Some (scores, its, conv) \<and>
               length scores = Size g \<and> sum_list scores = 1)"
proof (intro conjI allI impI)
  have inv: "graph_inv g"
    using run_calls_inv[OF graph_inv_NewGraph, of cs] assms(1) by simp
  have pos: "0 < Size g" using assms(2) by simp
  {
    fix scores newScores :: "real list"
    assume l: "length scores = Size g" "length newScores = Size g" and s: "sum_list scores = 1"
    show "\<exists>ns buf diff.
            iteration g d (Size g) ((1 - d) / real (Size g)) scores newScores
              = Some (ns, buf, diff) \<and> sum_list ns = 1"
      using iteration_eq[OF inv refl l, of d] next_score_mass[OF inv refl pos l(1), of d] s
      by simp
  }
  have "\<exists>res its conv.
          iterate g config (Size g) ((1 - DampingFactor config) / real (Size g)) 0 0
            (replicate (Size g) (1 / real (Size g))) (replicate (Size g) 0)
          = Some (res, its, conv) \<and> length res = Size g \<and> sum_list res = 1"
    by (rule iterate_mass[OF inv refl pos refl]) (use pos in \<open>simp_all add: sum_list_replicate\<close>)
  then show "\<exists>scores its conv.
               Compute g config = Some (scores, its, conv) \<and>
               length scores = Size g \<and> sum_list scores = 1"
    using pos by (simp add: Compute_def Let_def)
qed

theorem Compute_mass_conserved_witness:
  "run_calls [CallAddLink ''/a'' ''/b'', CallAddLink ''/a'' ''/c'', CallAddLink ''/b'' ''/c'']
     NewGraph = Some demo_graph \<and>
   1 \<le> Size demo_graph \<and>
   iteration demo_graph (85 / 100) 3 ((1 - 85 / 100) / 3) [1 / 3, 1 / 3, 1 / 3] [0, 0, 0]
     = Some ([13 / 90, 103 / 360, 41 / 72], [1 / 3, 1 / 3, 1 / 3], 17 / 36) \<and>
   sum_list [13 / 90, 103 / 360, 41 / 72 :: real] = 1 \<and>
   (\<exists>scores its conv.
      Compute demo_graph DefaultComputeConfig = Some (scores, its, conv) \<and>
      length scores = 3 \<and> sum_list scores = 1)"
proof -
  have sz: "Size demo_graph = 3" by (simp add: demo_graph_def Size_def)
  have it: "iteration demo_graph (85 / 100) 3 ((1 - 85 / 100) / 3) [1 / 3, 1 / 3, 1 / 3] [0, 0, 0]
     = Some ([13 / 90, 103 / 360, 41 / 72], [1 / 3, 1 / 3, 1 / 3], 17 / 36)"
    by (simp add: iteration_def danglingSum_def calcNewScores_def addInLinks_def l1_diff_def
        index_at_def demo_graph_def upt_rec Let_def)
  have one: "1 \<le> Size demo_graph" using sz by simp
  have s1: "sum_list [13 / 90, 103 / 360, 41 / 72 :: real] = 1" by simp
  have c: "\<exists>scores its conv.
      Compute demo_graph DefaultComputeConfig = Some (scores, its, conv) \<and>
      length scores = 3 \<and> sum_list scores = 1"
    using Compute_mass_conserved[OF demo_graph_built one, of "85 / 100" DefaultComputeConfig,
        THEN conjunct2]
    unfolding sz .
  show ?thesis
    by (intro conjI demo_graph_built one it s1 c)
qed

text \<open>
  C10. With \<^verbatim>\<open>MaxIterations\<close> \<open>\<le> 0\<close> the loop body never runs: on every graph with at
  least one node (well-formed or not) \<^verbatim>\<open>Compute\<close> returns the uniform vector, 0 iterations
  and \<^verbatim>\<open>converged = false\<close>.
\<close>

theorem Compute_no_iterations:
  assumes "1 \<le> Size g" and "MaxIterations config \<le> 0"
  shows "Compute g config = Some (replicate (Size g) (1 / real (Size g)), 0, False)"
proof -
  have "iterate g config n t 0 0 s b = Some (s, 0, False)" for n t s b
    using assms(2) by (subst iterate.simps) simp
  then show ?thesis using assms(1) by (simp add: Compute_def Let_def)
qed

theorem Compute_no_iterations_witness:
  "1 \<le> Size demo_graph \<and> MaxIterations (DefaultComputeConfig\<lparr>MaxIterations := 0\<rparr>) \<le> 0 \<and>
   Compute demo_graph (DefaultComputeConfig\<lparr>MaxIterations := 0\<rparr>)
     = Some ([1 / 3, 1 / 3, 1 / 3], 0, False)"
proof -
  have sz: "Size demo_graph = 3" by (simp add: demo_graph_def Size_def)
  show ?thesis
    using Compute_no_iterations[of demo_graph "DefaultComputeConfig\<lparr>MaxIterations := 0\<rparr>"] sz
    by (simp add: numeral_3_eq_3)
qed




section \<open>Claims about the crawler\<close>

text \<open>
  C6 (as amended). With a positive \<^verbatim>\<open>MaxDepth\<close>, a task whose depth exceeds it reaches
  the \<^verbatim>\<open>return\<close> of the depth check with the state unchanged (it is not fetched), and in
  every schedule of every crawl no fetched task has a depth above \<^verbatim>\<open>MaxDepth\<close>.
\<close>

theorem MaxDepth_positive_limits_fetches:
  assumes "0 < MaxDepth (cfg :: Config)"
  shows "(\<forall>(task :: urlTask) st. MaxDepth cfg < depth task \<longrightarrow>
            fetch_stage parse cfg w task st = (DepthExceeded, st, []) \<and>
            processURL parse cfg baseURL w task st = (DepthExceeded, st)) \<and>
         (\<forall>t \<in> set (snd (Crawl parse cfg w es startURL)). depth t \<le> MaxDepth cfg)"
proof (intro conjI allI impI ballI)
  fix task :: urlTask and st assume "MaxDepth cfg < depth task"
  then show "fetch_stage parse cfg w task st = (DepthExceeded, st, [])"
    using assms by (simp add: fetch_stage_def)
  then show "processURL parse cfg baseURL w task st = (DepthExceeded, st)"
    by (simp add: processURL_def)
next
  fix t assume "t \<in> set (snd (Crawl parse cfg w es startURL))"
  then show "depth t \<le> MaxDepth cfg" using Crawl_fetched[of t parse cfg w es startURL] assms by simp
qed

theorem MaxDepth_positive_limits_fetches_witness:
  "0 < MaxDepth (DefaultConfig\<lparr>Concurrency := 2, MaxDepth := 1\<rparr>) \<and>
   snd (Crawl simple_parse (DefaultConfig\<lparr>Concurrency := 2, MaxDepth := 1\<rparr>) demo_web race_schedule
          ''https://site.com/'')
     = [\<lparr>url = ''https://site.com/'', sourceURL = [], depth = 0\<rparr>,
        \<lparr>url = ''https://site.com/a'', sourceURL = ''https://site.com/'', depth = 1\<rparr>,
        \<lparr>url = ''https://site.com/b'', sourceURL = ''https://site.com/'', depth = 1\<rparr>] \<and>
   list_all (\<lambda>t. depth t \<le> 1)
     (snd (Crawl simple_parse (DefaultConfig\<lparr>Concurrency := 2, MaxDepth := 1\<rparr>) demo_web
             race_schedule ''https://site.com/'')) \<and>
   fetch_stage simple_parse (DefaultConfig\<lparr>Concurrency := 2, MaxDepth := 1\<rparr>) demo_web
       \<lparr>url = ''https://site.com/c'', sourceURL = ''https://site.com/a'', depth = 2\<rparr>
       \<lparr>visited = [], broken = [], tasks = [], fetched = []\<rparr>
     = (DepthExceeded, \<lparr>visited = [], broken = [], tasks = [], fetched = []\<rparr>, [])"
proof -
  let ?cfg = "DefaultConfig\<lparr>Concurrency := 2, MaxDepth := 1\<rparr>"
  have pos: "0 < MaxDepth ?cfg" by simp
  have log: "snd (Crawl simple_parse ?cfg demo_web race_schedule ''https://site.com/'')
     = [\<lparr>url = ''https://site.com/'', sourceURL = [], depth = 0\<rparr>,
        \<lparr>url = ''https://site.com/a'', sourceURL = ''https://site.com/'', depth = 1\<rparr>,
        \<lparr>url = ''https://site.com/b'', sourceURL = ''https://site.com/'', depth = 1\<rparr>]"
    by code_simp
  note inst = MaxDepth_positive_limits_fetches[OF pos, of simple_parse demo_web
      "\<lparr>Scheme = ''https'', Host = ''site.com'', Path = ''/''\<rparr>" race_schedule "''https://site.com/''"]
  have a: "list_all (\<lambda>t. depth t \<le> 1)
             (snd (Crawl simple_parse ?cfg demo_web race_schedule ''https://site.com/''))"
    using inst by (simp add: list_all_iff)
  have b: "fetch_stage simple_parse ?cfg demo_web
       \<lparr>url = ''https://site.com/c'', sourceURL = ''https://site.com/a'', depth = 2\<rparr>
       \<lparr>visited = [], broken = [], tasks = [], fetched = []\<rparr>
     = (DepthExceeded, \<lparr>visited = [], broken = [], tasks = [], fetched = []\<rparr>, [])"
    using inst by simp
  show ?thesis using pos log a b by blast
qed

text \<open>
  C6 (as stated) fails for a negative \<^verbatim>\<open>MaxDepth\<close>: with \<^verbatim>\<open>MaxDepth = -1\<close> the seed, of depth
  0, is fetched.
\<close>

theorem MaxDepth_negative_counterexample:
  "MaxDepth (DefaultConfig\<lparr>Concurrency := 1, MaxDepth := - 1\<rparr>) \<noteq> 0 \<and>
   depth \<lparr>url = ''https://site.com/'', sourceURL = [], depth = 0\<rparr>
     > MaxDepth (DefaultConfig\<lparr>Concurrency := 1, MaxDepth := - 1\<rparr>) \<and>
   snd (Crawl simple_parse (DefaultConfig\<lparr>Concurrency := 1, MaxDepth := - 1\<rparr>) demo_web
          [WorkerStep 0] ''https://site.com/'')
     = [\<lparr>url = ''https://site.com/'', sourceURL = [], depth = 0\<rparr>]"
  by code_simp

text \<open>
  C7. For every parser, configuration, site and schedule: \<^verbatim>\<open>Crawl\<close> returns an error
  exactly when the seed does not parse or its scheme is neither \<^verbatim>\<open>http\<close> nor \<^verbatim>\<open>https\<close>;
  it then returns at once, before any fetch; and with a valid seed \<^verbatim>\<open>Crawl\<close>, whenever it
  returns, returns a result and a nil error, whatever the site answers (network errors,
  error statuses, other content types, any list of extracted links).
\<close>

theorem Crawl_error_iff_invalid_seed:
  "((\<exists>e. fst (Crawl parse cfg w es startURL) = Some (Inl e)) \<longleftrightarrow>
      (parse startURL = None \<or>
       (\<exists>parsed. parse startURL = Some parsed \<and>
                 Scheme parsed \<noteq> ''http'' \<and> Scheme parsed \<noteq> ''https''))) \<and>
   ((\<exists>e. fst (Crawl parse cfg w es startURL) = Some (Inl e)) \<longrightarrow>
      snd (Crawl parse cfg w es startURL) = [])"
proof (cases "parse startURL")
  case None
  then show ?thesis by (simp add: Crawl_def)
next
  case (Some parsed)
  show ?thesis
  proof (cases "Scheme parsed = ''http'' \<or> Scheme parsed = ''https''")
    case True
    have "\<not> (\<exists>e. fst (Crawl parse cfg w es startURL) = Some (Inl e))"
      unfolding Crawl_valid[of parse startURL parsed cfg w es, OF Some True]
      by (cases "mon (run_events parse cfg parsed w es (init_sys cfg startURL))") simp_all
    then show ?thesis using Some True by auto
  next
    case False
    then show ?thesis using Some by (simp add: Crawl_def)
  qed
qed

theorem Crawl_error_iff_invalid_seed_witness:
  "Crawl simple_parse (DefaultConfig\<lparr>Concurrency := 1\<rparr>) failing_web [] '':bad''
     = (Some (Inl InvalidURL), []) \<and>
   Crawl simple_parse (DefaultConfig\<lparr>Concurrency := 1\<rparr>) failing_web [] ''ftp://site.com/''
     = (Some (Inl NotHTTP), []) \<and>
   Crawl simple_parse (DefaultConfig\<lparr>Concurrency := 1\<rparr>) failing_web
       [WorkerStep 0, MonitorStep, MonitorStep, MonitorStep] ''https://site.com/''
     = (Some (Inr \<lparr>StartURL = ''https://site.com/'', TotalVisited = 1, BrokenLinks = []\<rparr>),
        [\<lparr>url = ''https://site.com/'', sourceURL = [], depth = 0\<rparr>]) \<and>
   simple_parse ''https://site.com/'' \<noteq> None \<and>
   \<not> (\<exists>e. fst (Crawl simple_parse (DefaultConfig\<lparr>Concurrency := 1\<rparr>) failing_web
                [WorkerStep 0, MonitorStep, MonitorStep, MonitorStep] ''https://site.com/'')
              = Some (Inl e))"
proof -
  let ?cfg = "DefaultConfig\<lparr>Concurrency := 1\<rparr>"
  have a: "Crawl simple_parse ?cfg failing_web [] '':bad'' = (Some (Inl InvalidURL), [])"
    by code_simp
  have b: "Crawl simple_parse ?cfg failing_web [] ''ftp://site.com/'' = (Some (Inl NotHTTP), [])"
    by code_simp
  have c: "Crawl simple_parse ?cfg failing_web
       [WorkerStep 0, MonitorStep, MonitorStep, MonitorStep] ''https://site.com/''
     = (Some (Inr \<lparr>StartURL = ''https://site.com/'', TotalVisited = 1, BrokenLinks = []\<rparr>),
        [\<lparr>url = ''https://site.com/'', sourceURL = [], depth = 0\<rparr>])"
    by code_simp
  have p: "simple_parse ''https://site.com/''
           = Some \<lparr>Scheme = ''https'', Host = ''site.com'', Path = ''/''\<rparr>"
    by code_simp
  have d: "\<not> (\<exists>e. fst (Crawl simple_parse ?cfg failing_web
                [WorkerStep 0, MonitorStep, MonitorStep, MonitorStep] ''https://site.com/'')
              = Some (Inl e))"
    using Crawl_error_iff_invalid_seed[of simple_parse ?cfg failing_web
        "[WorkerStep 0, MonitorStep, MonitorStep, MonitorStep]" "''https://site.com/''"]
    by (simp add: p)
  show ?thesis using a b c d p by simp
qed

text \<open>
  C2. Two workers, the site \<open>demo_web\<close>: in the schedule \<open>race_schedule\<close> both workers
  run \<^verbatim>\<open>shouldVisit\<close> on \<^verbatim>\<open>/c\<close> before either runs \<^verbatim>\<open>markVisited\<close>, both send the task,
  and \<^verbatim>\<open>/c\<close> is fetched twice.
\<close>

theorem Crawl_race_fetches_twice:
  "snd (Crawl simple_parse (DefaultConfig\<lparr>Concurrency := 2\<rparr>) demo_web race_schedule
          ''https://site.com/'')
     = [\<lparr>url = ''https://site.com/'', sourceURL = [], depth = 0\<rparr>,
        \<lparr>url = ''https://site.com/a'', sourceURL = ''https://site.com/'', depth = 1\<rparr>,
        \<lparr>url = ''https://site.com/b'', sourceURL = ''https://site.com/'', depth = 1\<rparr>,
        \<lparr>url = ''https://site.com/c'', sourceURL = ''https://site.com/a'', depth = 2\<rparr>,
        \<lparr>url = ''https://site.com/c'', sourceURL = ''https://site.com/b'', depth = 2\<rparr>]"
  by code_simp







section \<open>Claims about the robots.txt checker\<close>

text \<open>
  C9. A response with status 200 whose scan stops with an error after two lines:
  \<^verbatim>\<open>Load\<close> returns the error, and the checker is marked as loaded and keeps the rule that
  was scanned, so that \<^verbatim>\<open>IsBlocked\<close> reports a URL under that rule as blocked.
\<close>

theorem Load_scan_error_still_blocks:
  "Load (GetResponse 200 [''User-agent: *'', ''Disallow: /private'']
           (Some ''bufio.Scanner: token too long'')) NewRobotsChecker
     = (\<lparr>rules = [\<lparr>path = ''/private''\<rparr>], loaded = True, loadError = None\<rparr>,
        Some ''bufio.Scanner: token too long'') \<and>
   IsBlocked simple_parse
     (fst (Load (GetResponse 200 [''User-agent: *'', ''Disallow: /private'']
                   (Some ''bufio.Scanner: token too long'')) NewRobotsChecker))
     ''https://site.com/private/x''"
  by code_simp

theorem Load_scan_error_still_blocks_witness:
  "IsBlocked simple_parse \<lparr>rules = [\<lparr>path = ''/private''\<rparr>], loaded = True, loadError = None\<rparr>
     ''https://site.com/private/x'' \<and>
   matchesRule ''/private/x'' ''/private''"
proof -
  note inst = Load_scan_error_still_blocks
  have a: "IsBlocked simple_parse \<lparr>rules = [\<lparr>path = ''/private''\<rparr>], loaded = True, loadError = None\<rparr>
     ''https://site.com/private/x''"
    using inst[THEN conjunct2] unfolding inst[THEN conjunct1] by simp
  have b: "matchesRule ''/private/x'' ''/private''" by code_simp
  show ?thesis by (intro conjI a b)
qed

end
